theory Spec2Isabelle
  imports Complex_Main "HOL-Library.Word"
begin

unbundle bit_operations_syntax

section \<open>Distribution1D (core/sampling.h)\<close>

text \<open>
  The C++ type \<open>Float\<close> is modelled by \<open>real\<close>: arithmetic is exact, there is no rounding,
  no NaN and no infinity. A \<open>CHECK\<close> that fails aborts the process; a method that can hit one
  returns an \<open>option\<close>, with \<open>None\<close> for the abort. Division by zero is \<open>0\<close> in HOL and
  NaN or infinity in C++; statements that depend on a quotient carry the hypothesis that makes
  the divisor nonzero.
\<close>

record Distribution1D =
  func :: "real list"
  cdf :: "real list"
  funcInt :: real
  deleteAfterUsage :: bool

text \<open>\<open>for (int i = 1; i < n + 1; ++i) cdf[i] = cdf[i - 1] + func[i - 1] / n;\<close>\<close>

definition integrate_loop :: "real list \<Rightarrow> nat \<Rightarrow> real list \<Rightarrow> real list" where
  "integrate_loop f n c =
     fold (\<lambda>i c. c[i := c ! (i - 1) + f ! (i - 1) / real n]) [1..<n + 1] c"

text \<open>\<open>for (int i = 1; i < n + 1; ++i) cdf[i] = Float(i) / Float(n);\<close>\<close>

definition uniform_loop :: "nat \<Rightarrow> real list \<Rightarrow> real list" where
  "uniform_loop n c = fold (\<lambda>i c. c[i := real i / real n]) [1..<n + 1] c"

text \<open>\<open>for (int i = 1; i < n + 1; ++i) cdf[i] /= funcInt;\<close>\<close>

definition normalise_loop :: "real \<Rightarrow> nat \<Rightarrow> real list \<Rightarrow> real list" where
  "normalise_loop fi n c = fold (\<lambda>i c. c[i := c ! i / fi]) [1..<n + 1] c"

text \<open>The step-function integral before it is turned into a CDF:
  \<open>cdf(n + 1)\<close> is value-initialised, then \<open>cdf[0] = 0\<close> and the first loop run.\<close>

definition raw_cdf :: "real list \<Rightarrow> real list" where
  "raw_cdf f = (let n = length f in integrate_loop f n ((replicate (n + 1) 0)[0 := 0]))"

text \<open>The constructor \<open>Distribution1D(const Float *f, int n)\<close>; the array \<open>f[0..n)\<close> is the
  list \<open>f\<close> and \<open>n\<close> its length.\<close>

definition Distribution1D_ctor :: "real list \<Rightarrow> Distribution1D" where
  "Distribution1D_ctor f =
     (let n = length f;
          c = raw_cdf f;
          fi = c ! n
      in \<lparr> func = f,
           cdf = (if fi = 0 then uniform_loop n c else normalise_loop fi n c),
           funcInt = fi,
           deleteAfterUsage = False \<rparr>)"

subsection \<open>FindInterval\<close>

text \<open>
  Modelled from the spec: \<open>FindInterval\<close> is declared in \<open>pbrt.h\<close>, which is not among the
  sources. The spec describes the search of \<open>SampleContinuous\<close> and \<open>SampleDiscrete\<close> as
  ``binary-search largest \<open>off\<close> with \<open>cdf[off] \<le> u\<close>''; the offset indexes the segment
  \<open>[cdf[off], cdf[off + 1]]\<close>, so it ranges over \<open>0 .. size - 2\<close>, and it is \<open>0\<close> when no index
  satisfies the predicate.
\<close>

primrec find_last :: "(nat \<Rightarrow> bool) \<Rightarrow> nat \<Rightarrow> nat" where
  "find_last pred 0 = 0"
| "find_last pred (Suc k) = (if pred (Suc k) then Suc k else find_last pred k)"

definition FindInterval :: "nat \<Rightarrow> (nat \<Rightarrow> bool) \<Rightarrow> nat" where
  "FindInterval sz pred = find_last pred (sz - 2)"

subsection \<open>Methods of the base class\<close>

text \<open>\<open>Distribution1D::Count()\<close>, the qualified (non-virtual) call used inside the base class.\<close>

definition Count_base :: "'a Distribution1D_scheme \<Rightarrow> int" where
  "Count_base d = int (length (func d))"

text \<open>\<open>Distribution1D::DiscretePDF\<close>: the \<open>CHECK\<close> on the index, then
  \<open>func[index] / (funcInt * Count())\<close>.\<close>

definition DiscretePDF_base :: "'a Distribution1D_scheme \<Rightarrow> int \<Rightarrow> real option" where
  "DiscretePDF_base d index =
     (if 0 \<le> index \<and> index < Count_base d
      then Some (func d ! nat index / (funcInt d * real_of_int (Count_base d)))
      else None)"

text \<open>
  What a call of \<open>SampleDiscrete\<close> hands back: the returned index, and the values written
  through the \<open>pdf\<close> and \<open>uRemapped\<close> pointers when these are not null.
\<close>

record sample =
  sampled :: int
  pdf_out :: "real option"
  uRemapped_out :: "real option"

text \<open>\<open>Distribution1D::SampleDiscrete\<close>; \<open>want_pdf\<close> and \<open>want_remap\<close> say whether the
  two output pointers are non-null.\<close>

definition SampleDiscrete_base ::
  "'a Distribution1D_scheme \<Rightarrow> real \<Rightarrow> bool \<Rightarrow> bool \<Rightarrow> sample option" where
  "SampleDiscrete_base d u want_pdf want_remap =
     (let offset = FindInterval (length (cdf d)) (\<lambda>index. cdf d ! index \<le> u);
          p = (if funcInt d > 0
               then func d ! offset / (funcInt d * real_of_int (Count_base d)) else 0);
          r = (u - cdf d ! offset) / (cdf d ! (offset + 1) - cdf d ! offset)
      in if want_remap \<and> \<not> (r \<ge> 0 \<and> r \<le> 1) then None
         else Some \<lparr> sampled = int offset,
                     pdf_out = (if want_pdf then Some p else None),
                     uRemapped_out = (if want_remap then Some r else None) \<rparr>)"

text \<open>\<open>Distribution1D::SampleContinuous\<close>: the sample in \<open>[0,1)\<close>, the pdf and the offset.\<close>

definition SampleContinuous_base ::
  "'a Distribution1D_scheme \<Rightarrow> real \<Rightarrow> (real \<times> real \<times> int) option" where
  "SampleContinuous_base d u =
     (let offset = FindInterval (length (cdf d)) (\<lambda>index. cdf d ! index \<le> u);
          du0 = u - cdf d ! offset;
          du = (if cdf d ! (offset + 1) - cdf d ! offset > 0
                then du0 / (cdf d ! (offset + 1) - cdf d ! offset) else du0);
          p = (if funcInt d > 0 then func d ! offset / funcInt d else 0)
      in Some ((real offset + du) / real_of_int (Count_base d), p, int offset))"

section \<open>SparseDistribution1D\<close>

record SparseDistribution1D = Distribution1D +
  backMap :: "int \<rightharpoonup> int"
  sampleMap :: "int list"
  uniProb :: real
  uniProbSingle :: real
  nAll :: int

text \<open>
  The constructor: the base class is built over \<open>contrib\<close>, \<open>uniProb\<close> is forced to \<open>1\<close> when
  there is no contribution, \<open>uniProbSingle\<close> is \<open>this->uniProb / nAll\<close>, and the body is
  \<open>CHECK(nAll > 0)\<close>.
\<close>

definition SparseDistribution1D_ctor ::
  "(int \<rightharpoonup> int) \<Rightarrow> int list \<Rightarrow> real list \<Rightarrow> real \<Rightarrow> int \<Rightarrow> SparseDistribution1D option" where
  "SparseDistribution1D_ctor bm sm contrib up n =
     (let base = Distribution1D_ctor contrib;
          up' = (if length contrib = 0 then 1 else up)
      in if n > 0
         then Some (Distribution1D.extend base
                \<lparr> backMap = bm, sampleMap = sm, uniProb = up',
                  uniProbSingle = up' / real_of_int n, nAll = n \<rparr>)
         else None)"

text \<open>
  The loop of \<open>createSparseDistribution1D\<close> over the \<open>unordered_map\<close> \<open>contribMap\<close>. The map
  is the list of its entries in iteration order, which C++ leaves unspecified; its keys are
  distinct. The loop state is \<open>(backMap, sampleMap, contrib, i)\<close>.
\<close>

definition sparse_step ::
  "int \<times> real \<Rightarrow> (int \<rightharpoonup> int) \<times> int list \<times> real list \<times> int
     \<Rightarrow> (int \<rightharpoonup> int) \<times> int list \<times> real list \<times> int" where
  "sparse_step kv st =
     (case st of (bm, sm, cs, i) \<Rightarrow>
        if snd kv > 0 then (bm(fst kv \<mapsto> i), sm @ [fst kv], cs @ [snd kv], i + 1)
        else (bm, sm, cs, i))"

definition createSparseDistribution1D ::
  "(int \<times> real) list \<Rightarrow> real \<Rightarrow> int \<Rightarrow> bool \<Rightarrow> SparseDistribution1D option" where
  "createSparseDistribution1D contribMap up n del =
     (case fold sparse_step contribMap (Map.empty, [], [], 0) of
        (bm, sm, cs, i) \<Rightarrow>
          map_option (\<lambda>s. s\<lparr> deleteAfterUsage := del \<rparr>)
            (SparseDistribution1D_ctor bm sm cs up n))"

text \<open>\<open>SparseDistribution1D::Count\<close> and \<open>SparseDistribution1D::DiscretePDF\<close>.\<close>

definition Sparse_Count :: "SparseDistribution1D \<Rightarrow> int" where
  "Sparse_Count s = nAll s"

definition Sparse_DiscretePDF :: "SparseDistribution1D \<Rightarrow> int \<Rightarrow> real option" where
  "Sparse_DiscretePDF s index =
     (if 0 \<le> index \<and> index < Sparse_Count s
      then (case backMap s index of
              None \<Rightarrow> Some (uniProbSingle s)
            | Some j \<Rightarrow>
                (case DiscretePDF_base s j of
                   None \<Rightarrow> None
                 | Some pdfIn \<Rightarrow> Some (uniProbSingle s + pdfIn * (1 - uniProb s))))
      else None)"

text \<open>Conversion of a \<open>Float\<close> to \<open>int\<close> truncates towards zero.\<close>

definition truncate :: "real \<Rightarrow> int" where
  "truncate x = (if x \<ge> 0 then \<lfloor>x\<rfloor> else \<lceil>x\<rceil>)"

text \<open>\<open>SparseDistribution1D::SampleDiscrete\<close>. Reading \<open>sampleMap\<close> out of range, which
  the base class cannot cause when a contribution was kept, counts as an abort.\<close>

definition Sparse_SampleDiscrete ::
  "SparseDistribution1D \<Rightarrow> real \<Rightarrow> bool \<Rightarrow> bool \<Rightarrow> sample option" where
  "Sparse_SampleDiscrete s u want_pdf want_remap =
     (let num =
        (if u > 1 - uniProb s
         then (let newU = (u - (1 - uniProb s)) / uniProb s;
                   k = truncate (newU * real_of_int (nAll s))
               in Some (if k = nAll s then nAll s - 1 else k))
         else (let newU = u / (1 - uniProb s)
               in case SampleDiscrete_base s newU want_pdf want_remap of
                    None \<Rightarrow> None
                  | Some r \<Rightarrow>
                      if nat (sampled r) < length (sampleMap s)
                      then Some (sampleMap s ! nat (sampled r)) else None))
      in case num of
           None \<Rightarrow> None
         | Some sampledNum \<Rightarrow>
             (case (if want_pdf then map_option Some (Sparse_DiscretePDF s sampledNum)
                    else Some None) of
                None \<Rightarrow> None
              | Some p \<Rightarrow>
                  if want_remap then None
                  else Some \<lparr> sampled = sampledNum, pdf_out = p, uRemapped_out = None \<rparr>))"

section \<open>The class hierarchy and its virtual methods\<close>

text \<open>
  A \<open>Distribution1D*\<close> points to an object of the base class, to an
  \<open>InterpolatedDistribution1D\<close> (the base class over the \<open>n\<close> weights, and the \<open>n\<close> pointers
  \<open>distributions\<close>) or to a \<open>SparseDistribution1D\<close>. A virtual call dispatches on the
  constructor.
\<close>

datatype distr =
    Dense Distribution1D
  | Interpolated Distribution1D "distr list"
  | Sparse SparseDistribution1D

text \<open>\<open>FLT_MIN\<close> of \<open><cfloat>\<close>: the least positive normalised \<open>float\<close>.\<close>

definition FLT_MIN :: real where
  "FLT_MIN = 1 / 2 ^ 126"

text \<open>The constructor: the base class over \<open>f[0..n)\<close>, the pointers
  \<open>distributions[0..n)\<close>, and \<open>CHECK(n > 0)\<close>; both arrays have \<open>n\<close> entries.\<close>

definition InterpolatedDistribution1D_ctor :: "real list \<Rightarrow> distr list \<Rightarrow> distr option" where
  "InterpolatedDistribution1D_ctor f ds =
     (if length f > 0 then Some (Interpolated (Distribution1D_ctor f) ds) else None)"

text \<open>\<open>Count\<close>: the interpolated distribution answers with its first child's count.\<close>

fun Count :: "distr \<Rightarrow> int option" where
  "Count (Dense d) = Some (Count_base d)"
| "Count (Sparse s) = Some (Sparse_Count s)"
| "Count (Interpolated d ds) = (case ds of [] \<Rightarrow> None | x # xs \<Rightarrow> Count x)"

text \<open>
  \<open>DiscretePDF\<close>. For the interpolated distribution the loop
  \<open>for (int i = 0; i < func.size(); ++i) pdf += distributions[i]->DiscretePDF(index) * (cdf[i + 1] - cdf[i])\<close>
  runs over the children in order; \<open>i\<close> is the loop counter and \<open>pdf\<close> the accumulator. A
  child that aborts aborts the call.
\<close>

fun DiscretePDF :: "distr \<Rightarrow> int \<Rightarrow> real option"
  and Interp_pdf_loop :: "distr list \<Rightarrow> real list \<Rightarrow> nat \<Rightarrow> int \<Rightarrow> real \<Rightarrow> real option" where
  "DiscretePDF (Dense d) index = DiscretePDF_base d index"
| "DiscretePDF (Sparse s) index = Sparse_DiscretePDF s index"
| "DiscretePDF (Interpolated d ds) index = Interp_pdf_loop ds (cdf d) 0 index 0"
| "Interp_pdf_loop [] c i index pdf = Some pdf"
| "Interp_pdf_loop (x # xs) c i index pdf =
     (case DiscretePDF x index of
        None \<Rightarrow> None
      | Some p \<Rightarrow> Interp_pdf_loop xs c (i + 1) index (pdf + p * (c ! (i + 1) - c ! i)))"

text \<open>
  \<open>SampleDiscrete\<close>. The interpolated distribution picks the child \<open>offset\<close>, rescales \<open>u\<close>
  to \<open>uSub\<close>, replaces a \<open>uSub \<ge> 1.0\<close> by \<open>1.0 - FLT_MIN\<close>, samples the child without output
  pointers, and evaluates its own \<open>DiscretePDF\<close> when \<open>pdf\<close> is asked for; \<open>CHECK(!uRemapped)\<close>
  is last. Reading \<open>distributions\<close> out of range counts as an abort.
\<close>

function SampleDiscrete :: "distr \<Rightarrow> real \<Rightarrow> bool \<Rightarrow> bool \<Rightarrow> sample option" where
  "SampleDiscrete (Dense d) u want_pdf want_remap = SampleDiscrete_base d u want_pdf want_remap"
| "SampleDiscrete (Sparse s) u want_pdf want_remap = Sparse_SampleDiscrete s u want_pdf want_remap"
| "SampleDiscrete (Interpolated d ds) u want_pdf want_remap =
     (let offset = FindInterval (length (cdf d)) (\<lambda>index. cdf d ! index \<le> u);
          uSub0 = (u - cdf d ! offset) / (cdf d ! (offset + 1) - cdf d ! offset);
          uSub = (if uSub0 \<ge> 1 then 1 - FLT_MIN else uSub0)
      in if offset < length ds
         then (case SampleDiscrete (ds ! offset) uSub False False of
                 None \<Rightarrow> None
               | Some r \<Rightarrow>
                   (case (if want_pdf
                          then map_option Some (DiscretePDF (Interpolated d ds) (sampled r))
                          else Some None) of
                      None \<Rightarrow> None
                    | Some p \<Rightarrow>
                        if want_remap then None
                        else Some \<lparr> sampled = sampled r, pdf_out = p, uRemapped_out = None \<rparr>))
         else None)"
  by pat_completeness auto
termination
proof (relation "measure (\<lambda>(d, u, p, r). size d)")
  show "wf (measure (\<lambda>(d, u, p, r). size d))" by simp
next
  fix d :: Distribution1D and ds :: "distr list" and u :: real and want_pdf want_remap :: bool
    and x xa xb
  assume "xa = (u - cdf d ! x) / (cdf d ! (x + 1) - cdf d ! x)" "x < length ds"
  then have "ds ! x \<in> set ds" by simp
  then have "size (ds ! x) \<le> size_list size ds" by (simp add: size_list_estimation')
  then show "((ds ! x, xb, False, False), Interpolated d ds, u, want_pdf, want_remap)
       \<in> measure (\<lambda>(d, u, p, r). size d)" by simp
qed

text \<open>\<open>SampleContinuous\<close>: both derived classes override it with \<open>CHECK(false)\<close>.\<close>

fun SampleContinuous :: "distr \<Rightarrow> real \<Rightarrow> (real \<times> real \<times> int) option" where
  "SampleContinuous (Dense d) u = SampleContinuous_base d u"
| "SampleContinuous (Sparse s) u = None"
| "SampleContinuous (Interpolated d ds) u = None"

section \<open>Voxel keys (core/lightdistrib.cpp)\<close>

definition invalidPackedPos :: "64 word" where
  "invalidPackedPos = 0xffffffffffffffff"

text \<open>
  A \<open>Point3i\<close> holds three C \<open>int\<close>s. They are modelled by \<open>int\<close>: the coordinates stay far
  from the bounds of a 32-bit \<open>int\<close>, and \<open>uint64_t(v)\<close> of an \<open>int\<close> value \<open>v\<close> is \<open>v\<close> modulo
  \<open>2^64\<close>, which is \<open>word_of_int v\<close>.
\<close>

type_synonym Point3i = "int \<times> int \<times> int"

fun coord :: "Point3i \<Rightarrow> nat \<Rightarrow> int" where
  "coord (x, y, z) i = (if i = 0 then x else if i = 1 then y else z)"

fun set_coord :: "Point3i \<Rightarrow> nat \<Rightarrow> int \<Rightarrow> Point3i" where
  "set_coord (x, y, z) i v = (if i = 0 then (v, y, z) else if i = 1 then (x, v, z) else (x, y, v))"

text \<open>\<open>(uint64_t(pi[0]) << 40) | (uint64_t(pi[1]) << 20) | pi[2]\<close>\<close>

definition packPos :: "Point3i \<Rightarrow> 64 word" where
  "packPos p = push_bit 40 (word_of_int (coord p 0)) OR push_bit 20 (word_of_int (coord p 1))
                 OR word_of_int (coord p 2)"

text \<open>The bit mixing of the packed key, reduced modulo the table size.\<close>

definition mixHash :: "64 word \<Rightarrow> 64 word \<Rightarrow> 64 word" where
  "mixHash packedPos hashTableSize =
     (let h1 = packedPos XOR drop_bit 31 packedPos;
          h2 = h1 * 0x7fb5d329728ea185;
          h3 = h2 XOR drop_bit 27 h2;
          h4 = h3 * 0x81dadef4bc2dd44d;
          h5 = h4 XOR drop_bit 33 h4
      in h5 mod hashTableSize)"

text \<open>\<open>PhotonBasedVoxelLightDistribution::calcPackedPosAndHash\<close>, with its
  \<open>CHECK_NE(*packedPos, invalidPackedPos)\<close>.\<close>

definition calcPackedPosAndHash :: "64 word \<Rightarrow> Point3i \<Rightarrow> (64 word \<times> 64 word) option" where
  "calcPackedPosAndHash hashTableSize p =
     (let packedPos = packPos p
      in if packedPos = invalidPackedPos then None
         else Some (packedPos, mixHash packedPos hashTableSize))"

section \<open>Floating-point arithmetic\<close>

text \<open>
  Where a statement is about representable values, \<open>Float\<close> is the IEEE 754 type \<open>float\<close>
  (binary32), the default of the build, and an operation returns the exact result rounded to
  the nearest representable value, ties to even. Values stay below the overflow threshold in
  what follows, so infinities are not modelled.
\<close>

text \<open>Rounding of a real to the nearest integer, a tie going to the even neighbour.\<close>

definition rne_int :: "real \<Rightarrow> int" where
  "rne_int x =
     (let f = \<lfloor>x\<rfloor>; r = x - of_int f
      in if r < 1 / 2 then f else if r > 1 / 2 then f + 1 else if even f then f else f + 1)"

text \<open>The exponent of \<open>x\<close>: the largest \<open>e\<close> among \<open>emin, \<dots>, emin + k\<close> with
  \<open>2^e \<le> |x|\<close>, and \<open>emin\<close> for a subnormal \<open>x\<close> or zero.\<close>

primrec top_exp :: "int \<Rightarrow> real \<Rightarrow> nat \<Rightarrow> int" where
  "top_exp emin x 0 = emin"
| "top_exp emin x (Suc k) =
     (if 2 powi (emin + int (Suc k)) \<le> \<bar>x\<bar> then emin + int (Suc k) else top_exp emin x k)"

text \<open>Rounding to a significand of \<open>p\<close> bits: the multiple of the unit in the last place
  that is nearest to \<open>x\<close>.\<close>

definition rne :: "nat \<Rightarrow> int \<Rightarrow> nat \<Rightarrow> real \<Rightarrow> real" where
  "rne p emin k x =
     (let e = top_exp emin x k; ulp = 2 powi (e - int p + 1)
      in of_int (rne_int (x / ulp)) * ulp)"

text \<open>\<open>float\<close> has 24 bits and the exponents \<open>-126 .. 127\<close>, \<open>double\<close> 53 bits and
  \<open>-1022 .. 1023\<close>.\<close>

definition binary32 :: "real \<Rightarrow> real" where
  "binary32 = rne 24 (- 126) 253"

definition binary64 :: "real \<Rightarrow> real" where
  "binary64 = rne 53 (- 1022) 2045"

text \<open>The constructor of \<open>Distribution1D\<close> once more, each operation rounded to
  \<open>float\<close>; the \<open>int\<close> \<open>n\<close> and \<open>i\<close> are converted to \<open>float\<close> first.\<close>

definition integrate_loop_f32 :: "real list \<Rightarrow> nat \<Rightarrow> real list \<Rightarrow> real list" where
  "integrate_loop_f32 f n c =
     fold (\<lambda>i c. c[i := binary32 (c ! (i - 1) + binary32 (f ! (i - 1) / binary32 (real n)))])
       [1..<n + 1] c"

definition uniform_loop_f32 :: "nat \<Rightarrow> real list \<Rightarrow> real list" where
  "uniform_loop_f32 n c =
     fold (\<lambda>i c. c[i := binary32 (binary32 (real i) / binary32 (real n))]) [1..<n + 1] c"

definition normalise_loop_f32 :: "real \<Rightarrow> nat \<Rightarrow> real list \<Rightarrow> real list" where
  "normalise_loop_f32 fi n c = fold (\<lambda>i c. c[i := binary32 (c ! i / fi)]) [1..<n + 1] c"

definition Distribution1D_ctor_f32 :: "real list \<Rightarrow> Distribution1D" where
  "Distribution1D_ctor_f32 f =
     (let n = length f;
          c = integrate_loop_f32 f n ((replicate (n + 1) 0)[0 := 0]);
          fi = c ! n
      in \<lparr> func = f,
           cdf = (if fi = 0 then uniform_loop_f32 n c else normalise_loop_f32 fi n c),
           funcInt = fi,
           deleteAfterUsage = False \<rparr>)"

text \<open>
  The value that \<open>InterpolatedDistribution1D::SampleDiscrete\<close> passes to the selected child:
  \<open>Float uSub = (u - cdf[offset]) / (cdf[offset + 1] - cdf[offset]);\<close>
  \<open>uSub = uSub >= 1.0 ? 1.0 - FLT_MIN : uSub;\<close>
  The literal \<open>1.0\<close> is a \<open>double\<close>, so the difference \<open>1.0 - FLT_MIN\<close> is computed in
  \<open>double\<close> and converted to \<open>float\<close> by the assignment.
\<close>

definition Interp_uSub_f32 :: "Distribution1D \<Rightarrow> real \<Rightarrow> real" where
  "Interp_uSub_f32 d u =
     (let offset = FindInterval (length (cdf d)) (\<lambda>index. cdf d ! index \<le> u);
          uSub = binary32 (binary32 (u - cdf d ! offset)
                            / binary32 (cdf d ! (offset + 1) - cdf d ! offset))
      in if uSub \<ge> 1 then binary32 (binary64 (1 - FLT_MIN)) else uSub)"

section \<open>Trilinear blend of the photon voxel distribution\<close>

text \<open>
  The weights of the blend are \<open>Float\<close> values, and the claim about them is about their
  exact sum, so every \<open>Float\<close> operation of \<open>getInterpolatedDistribution\<close> is rounded to
  \<open>float\<close> here.
\<close>

text \<open>The C library's \<open>fmod\<close>: the remainder of \<open>x / y\<close> with the quotient truncated towards
  zero, so that the result has the sign of \<open>x\<close>. The remainder of two \<open>float\<close>s is a
  \<open>float\<close>: \<open>fmod\<close> does not round.\<close>

definition fmod :: "real \<Rightarrow> real \<Rightarrow> real" where
  "fmod x y = x - real_of_int (if x / y \<ge> 0 then \<lfloor>x / y\<rfloor> else \<lceil>x / y\<rceil>) * y"

text \<open>\<open>(fmod(offset[i] / (1.0f / nVoxels[i]), 1.0f)) - 0.5f\<close>: the \<open>int\<close> \<open>nVoxels[i]\<close> is
  converted to \<open>float\<close>, then come two divisions and a subtraction.\<close>

definition offsetInVoxel :: "(nat \<Rightarrow> real) \<Rightarrow> (nat \<Rightarrow> int) \<Rightarrow> nat \<Rightarrow> real" where
  "offsetInVoxel offset nVoxels i =
     binary32 (fmod (binary32 (offset i / binary32 (1 / binary32 (real_of_int (nVoxels i))))) 1
               - 1 / 2)"

text \<open>
  The three vectors that \<open>getInterpolatedDistribution\<close> grows: \<open>distributions\<close>, \<open>voxelIds\<close>
  and \<open>influence\<close>.
\<close>

type_synonym blend = "distr list \<times> Point3i list \<times> real list"

text \<open>
  One pass of the inner loop body, for the entry \<open>n\<close> along axis \<open>i\<close>:
  \<open>influence.push_back(influence[n] * abs(offsetInVoxel));\<close>
  \<open>influence[n] *= (1 - abs(offsetInVoxel));\<close>
  The hash-table probe \<open>getDistribution(packedPos, hash, nProbes)\<close> is the parameter
  \<open>getDistribution\<close>: it reads the table and does not touch the weights.
\<close>

definition neighbour_step ::
  "(64 word \<Rightarrow> 64 word \<Rightarrow> distr) \<Rightarrow> 64 word \<Rightarrow> (nat \<Rightarrow> int) \<Rightarrow> nat \<Rightarrow> real \<Rightarrow> nat
     \<Rightarrow> blend \<Rightarrow> blend option" where
  "neighbour_step getDistribution hashTableSize nVoxels i off n st =
     (case st of (distributions, voxelIds, influence) \<Rightarrow>
        (let old = voxelIds ! n;
             newId = set_coord old i (coord old i + (if off > 0 then 1 else - 1))
         in if coord newId i \<ge> 0 \<and> coord newId i < nVoxels i
            then (case calcPackedPosAndHash hashTableSize newId of
                    None \<Rightarrow> None
                  | Some (newPackedPos, newHash) \<Rightarrow>
                      Some (distributions @ [getDistribution newPackedPos newHash],
                            voxelIds @ [newId],
                            (influence @ [binary32 (influence ! n * \<bar>off\<bar>)])
                              [n := binary32 (influence ! n * binary32 (1 - \<bar>off\<bar>))]))
            else Some st))"

text \<open>\<open>for (int n = 0; n < size; ++n)\<close>, where \<open>size\<close> was read before the loop.\<close>

fun neighbour_loop ::
  "(64 word \<Rightarrow> 64 word \<Rightarrow> distr) \<Rightarrow> 64 word \<Rightarrow> (nat \<Rightarrow> int) \<Rightarrow> nat \<Rightarrow> real \<Rightarrow> nat list
     \<Rightarrow> blend \<Rightarrow> blend option" where
  "neighbour_loop g hts nV i off [] st = Some st"
| "neighbour_loop g hts nV i off (n # ns) st =
     (case neighbour_step g hts nV i off n st of
        None \<Rightarrow> None
      | Some st' \<Rightarrow> neighbour_loop g hts nV i off ns st')"

text \<open>\<open>for (int i = 0; i < 3; ++i)\<close>: an axis with \<open>offsetInVoxel == 0.f\<close> is skipped.\<close>

fun axis_loop ::
  "(64 word \<Rightarrow> 64 word \<Rightarrow> distr) \<Rightarrow> 64 word \<Rightarrow> (nat \<Rightarrow> int) \<Rightarrow> (nat \<Rightarrow> real) \<Rightarrow> nat list
     \<Rightarrow> blend \<Rightarrow> blend option" where
  "axis_loop g hts nV offset [] st = Some st"
| "axis_loop g hts nV offset (i # is) st =
     (let off = offsetInVoxel offset nV i
      in if off = 0 then axis_loop g hts nV offset is st
         else (case neighbour_loop g hts nV i off [0..<length (fst (snd st))] st of
                 None \<Rightarrow> None
               | Some st' \<Rightarrow> axis_loop g hts nV offset is st'))"

text \<open>
  \<open>getInterpolatedDistribution\<close>. \<open>offset\<close> is \<open>scene.WorldBound().Offset(p)\<close>; the
  statistics counter \<open>nProbes\<close> is left out. The \<open>InterpolatedDistribution1D\<close> is built over
  the weights by the constructor in \<open>float\<close> arithmetic, with its \<open>CHECK(n > 0)\<close>.
\<close>

definition blend_lists ::
  "(64 word \<Rightarrow> 64 word \<Rightarrow> distr) \<Rightarrow> 64 word \<Rightarrow> (nat \<Rightarrow> int) \<Rightarrow> (nat \<Rightarrow> real)
     \<Rightarrow> 64 word \<Rightarrow> 64 word \<Rightarrow> Point3i \<Rightarrow> blend option" where
  "blend_lists g hts nV offset packedPos hash voxelId =
     axis_loop g hts nV offset [0..<3] ([g packedPos hash], [voxelId], [1])"

definition getInterpolatedDistribution ::
  "(64 word \<Rightarrow> 64 word \<Rightarrow> distr) \<Rightarrow> 64 word \<Rightarrow> (nat \<Rightarrow> int) \<Rightarrow> (nat \<Rightarrow> real)
     \<Rightarrow> 64 word \<Rightarrow> 64 word \<Rightarrow> Point3i \<Rightarrow> distr option" where
  "getInterpolatedDistribution g hts nV offset packedPos hash voxelId =
     (case blend_lists g hts nV offset packedPos hash voxelId of
        None \<Rightarrow> None
      | Some (distributions, voxelIds, influence) \<Rightarrow>
          if length influence > 0
          then Some (Interpolated ((Distribution1D_ctor_f32 influence)\<lparr> deleteAfterUsage := True \<rparr>)
                       distributions)
          else None)"

section \<open>Photon clusters of the kd-tree leaves\<close>

record Photon =
  px :: real
  py :: real
  pz :: real
  beta :: real
  lightNum :: int

text \<open>\<open>CdfCloud::Cdf\<close>: \<open>x\<close>, \<open>y\<close>, \<open>z\<close> and \<open>weight\<close> start at zero; \<open>distr\<close> is set only
  for a cluster that is kept.\<close>

record Cdf =
  cx :: real
  cy :: real
  cz :: real
  cdistr :: "distr option"
  weight :: int

text \<open>\<open>lightContrib[k] += v\<close> on an \<open>unordered_map<int, Float>\<close>: a missing key starts
  at zero. The map is the list of its entries.\<close>

fun contrib_add :: "int \<Rightarrow> real \<Rightarrow> (int \<times> real) list \<Rightarrow> (int \<times> real) list" where
  "contrib_add k v [] = [(k, v)]"
| "contrib_add k v ((k', x) # m) =
     (if k' = k then (k', x + v) # m else (k', x) # contrib_add k v m)"

text \<open>The loop over the photons of one cluster; the state is the cluster record being
  accumulated, \<open>lightContrib\<close> and \<open>numPhotons\<close>.\<close>

definition photon_step ::
  "Photon list \<Rightarrow> nat \<Rightarrow> Cdf \<times> (int \<times> real) list \<times> int \<Rightarrow> Cdf \<times> (int \<times> real) list \<times> int" where
  "photon_step cloud photonIndex st =
     (case st of (c, lightContrib, numPhotons) \<Rightarrow>
        (let photon = cloud ! photonIndex
         in if lightNum photon = - 1 then st
            else (c\<lparr> cx := cx c + px photon, cy := cy c + py photon, cz := cz c + pz photon \<rparr>,
                  contrib_add (lightNum photon) (beta photon) lightContrib,
                  numPhotons + 1)))"

text \<open>
  The body of the \<open>ParallelFor\<close> in \<open>PhotonBasedCdfKdTreeLightDistribution::buildCluster\<close> for
  one leaf: \<open>Some None\<close> when nothing is pushed, \<open>Some (Some cdf)\<close> when \<open>cdf\<close> is pushed onto
  \<open>cdfCloud.pts\<close>, \<open>None\<close> when the \<open>CHECK\<close> of the sparse distribution aborts.
\<close>

definition cluster_body ::
  "Photon list \<Rightarrow> int \<Rightarrow> real \<Rightarrow> int \<Rightarrow> nat list \<Rightarrow> Cdf option option" where
  "cluster_body cloud photonThreshold minContributionScale nLights cluster =
     (case fold (photon_step cloud) cluster
             (\<lparr> cx = 0, cy = 0, cz = 0, cdistr = None, weight = 0 \<rparr>, [], 0) of
        (c, lightContrib, numPhotons) \<Rightarrow>
          if numPhotons > photonThreshold
          then (case createSparseDistribution1D lightContrib minContributionScale nLights False of
                  None \<Rightarrow> None
                | Some s \<Rightarrow>
                    Some (Some \<lparr> cx = cx c / real_of_int numPhotons,
                                 cy = cy c / real_of_int numPhotons,
                                 cz = cz c / real_of_int numPhotons,
                                 cdistr = Some (Sparse s),
                                 weight = numPhotons \<rparr>))
          else Some None)"

text \<open>\<open>buildCluster\<close>: the leaves in index order. The \<open>ParallelFor\<close> pushes under a mutex in
  an order that depends on the schedule; which records are pushed does not.\<close>

fun buildCluster ::
  "Photon list \<Rightarrow> int \<Rightarrow> real \<Rightarrow> int \<Rightarrow> nat list list \<Rightarrow> Cdf list \<Rightarrow> Cdf list option" where
  "buildCluster cloud thr mcs nLights [] pts = Some pts"
| "buildCluster cloud thr mcs nLights (cluster # clusters) pts =
     (case cluster_body cloud thr mcs nLights cluster of
        None \<Rightarrow> None
      | Some None \<Rightarrow> buildCluster cloud thr mcs nLights clusters pts
      | Some (Some c) \<Rightarrow> buildCluster cloud thr mcs nLights clusters (pts @ [c]))"

section \<open>Notions used in the statements\<close>

text \<open>The entries of a contribution map that \<open>createSparseDistribution1D\<close> keeps: those with
  a contribution above zero.\<close>

definition kept :: "(int \<times> real) list \<Rightarrow> (int \<times> real) list" where
  "kept m = filter (\<lambda>kv. snd kv > 0) m"

text \<open>\<open>createSparseDistribution1D(contribMap, up, n)->DiscretePDF(index)\<close>: the pdf of a freshly
  created sparse distribution.\<close>

definition Sparse_pdf :: "(int \<times> real) list \<Rightarrow> real \<Rightarrow> int \<Rightarrow> int \<Rightarrow> real option" where
  "Sparse_pdf contribMap up n index =
     (case createSparseDistribution1D contribMap up n True of
        None \<Rightarrow> None
      | Some s \<Rightarrow> DiscretePDF (Sparse s) index)"

text \<open>The photons of a cluster that hit a surface: those whose \<open>lightNum\<close> is not \<open>-1\<close>.\<close>

definition hits :: "Photon list \<Rightarrow> nat list \<Rightarrow> nat list" where
  "hits cloud cluster = filter (\<lambda>i. lightNum (cloud ! i) \<noteq> - 1) cluster"

text \<open>The map \<open>lightContrib\<close> that the loop over a cluster accumulates.\<close>

definition cluster_contrib :: "Photon list \<Rightarrow> nat list \<Rightarrow> (int \<times> real) list" where
  "cluster_contrib cloud cluster =
     fold (\<lambda>i. contrib_add (lightNum (cloud ! i)) (beta (cloud ! i))) (hits cloud cluster) []"

text \<open>The three vectors of the blend have one length, and every voxel id lies in the grid.\<close>

definition blend_ok :: "(nat \<Rightarrow> int) \<Rightarrow> blend \<Rightarrow> bool" where
  "blend_ok nV st =
     (case st of (distributions, voxelIds, influence) \<Rightarrow>
        length distributions = length voxelIds \<and> length influence = length voxelIds
        \<and> (\<forall>v \<in> set voxelIds. \<forall>k < 3. 0 \<le> coord v k \<and> coord v k < nV k))"

text \<open>The id of the voxel next to \<open>v\<close> along axis \<open>i\<close>: one forth when the offset in the
  voxel is positive, one back otherwise.\<close>

definition neighbour :: "nat \<Rightarrow> real \<Rightarrow> Point3i \<Rightarrow> Point3i" where
  "neighbour i off v = set_coord v i (coord v i + (if off > 0 then 1 else - 1))"

text \<open>
  The weights as the claim describes them, with the rounding of \<open>float\<close> written out.
  Splitting by \<open>a = |frac|\<close> replaces every weight \<open>w\<close> by \<open>w (1 - a)\<close> and appends \<open>w a\<close>
  for it, the difference and both products rounded.
\<close>

definition split_weights :: "real \<Rightarrow> real list \<Rightarrow> real list" where
  "split_weights a ws =
     map (\<lambda>w. binary32 (w * binary32 (1 - a))) ws @ map (\<lambda>w. binary32 (w * a)) ws"

text \<open>An axis is split when the offset in the voxel is not zero and the neighbour of the
  current voxel along the axis is inside the grid.\<close>

definition axis_split :: "(nat \<Rightarrow> int) \<Rightarrow> (nat \<Rightarrow> real) \<Rightarrow> Point3i \<Rightarrow> nat \<Rightarrow> bool" where
  "axis_split nV offset voxelId i =
     (let off = offsetInVoxel offset nV i;
          c = coord voxelId i + (if off > 0 then 1 else - 1)
      in off \<noteq> 0 \<and> 0 \<le> c \<and> c < nV i)"

definition axis_weights ::
  "(nat \<Rightarrow> int) \<Rightarrow> (nat \<Rightarrow> real) \<Rightarrow> Point3i \<Rightarrow> nat \<Rightarrow> real list \<Rightarrow> real list" where
  "axis_weights nV offset voxelId i ws =
     (if axis_split nV offset voxelId i then split_weights \<bar>offsetInVoxel offset nV i\<bar> ws else ws)"

text \<open>The weights after the three axes, starting from the single weight \<open>1\<close> of the current
  voxel.\<close>

definition blend_weights :: "(nat \<Rightarrow> int) \<Rightarrow> (nat \<Rightarrow> real) \<Rightarrow> Point3i \<Rightarrow> real list" where
  "blend_weights nV offset voxelId =
     axis_weights nV offset voxelId 2
       (axis_weights nV offset voxelId 1 (axis_weights nV offset voxelId 0 [1]))"

text \<open>The weights handed to the \<open>InterpolatedDistribution1D\<close> that a call returns.\<close>

definition influence_of :: "distr option \<Rightarrow> real list" where
  "influence_of r = (case r of Some (Interpolated d ds) \<Rightarrow> func d | _ \<Rightarrow> [])"

text \<open>
  A query point in the unit cube with two voxels per axis: \<open>p = (0.25 + 2^-24, 0.375, 0.25)\<close>
  lies in the voxel \<open>(0, 0, 0)\<close>, and its offset is \<open>p\<close> itself. The probe of the example
  answers every key with the same distribution.
\<close>

definition example_offset :: "nat \<Rightarrow> real" where
  "example_offset k = (if k = 0 then 1 / 4 + 1 / 2 ^ 24 else if k = 1 then 3 / 8 else 1 / 4)"

definition example_grid :: "nat \<Rightarrow> int" where
  "example_grid k = 2"

definition example_probe :: "64 word \<Rightarrow> 64 word \<Rightarrow> distr" where
  "example_probe packedPos hash = Dense (Distribution1D_ctor [1])"

section \<open>Properties of Distribution1D\<close>

lemma length_fold_upd:
  "length (fold (\<lambda>i c. c[i := g i c]) is c) = length c"
  by (induction "is" arbitrary: c) auto

lemma fold_pointwise_nth:
  assumes "m < length c" "j < length c"
  shows "fold (\<lambda>i c. c[i := h i (c ! i)]) [1..<m + 1] c ! j
         = (if 1 \<le> j \<and> j \<le> m then h j (c ! j) else c ! j)"
  using assms
proof (induction m arbitrary: j)
  case 0
  then show ?case by auto
next
  case (Suc m)
  have len: "length (fold (\<lambda>i c. c[i := h i (c ! i)]) [1..<m + 1] c) = length c"
    by (rule length_fold_upd)
  from Suc.prems have m: "m < length c" by simp
  show ?case
  proof (cases "j = Suc m")
    case True
    then show ?thesis using Suc.prems Suc.IH[OF m, of "Suc m"] len
      by simp
  next
    case False
    then show ?thesis using Suc.prems Suc.IH[OF m, of j] len
      by auto
  qed
qed

lemma fold_running_nth:
  assumes "m < length c" "j < length c"
  shows "fold (\<lambda>i c. c[i := c ! (i - 1) + g i]) [1..<m + 1] c ! j
         = (if j \<le> m then c ! 0 + (\<Sum>k = 1..j. g k) else (c ! j :: real))"
  using assms
proof (induction m arbitrary: j)
  case 0
  then show ?case by simp
next
  case (Suc m)
  have len: "length (fold (\<lambda>i c. c[i := c ! (i - 1) + g i]) [1..<m + 1] c) = length c"
    by (rule length_fold_upd)
  from Suc.prems have m: "m < length c" by simp
  show ?case
  proof (cases "j = Suc m")
    case True
    then show ?thesis using Suc.prems Suc.IH[OF m, of m] len
      by simp
  next
    case False
    then show ?thesis using Suc.prems Suc.IH[OF m, of j] len
      by auto
  qed
qed

lemma length_raw_cdf: "length (raw_cdf f) = length f + 1"
  by (simp add: raw_cdf_def integrate_loop_def length_fold_upd Let_def)

lemma raw_cdf_nth:
  assumes "i \<le> length f"
  shows "raw_cdf f ! i = (\<Sum>k = 1..i. f ! (k - 1) / real (length f))"
proof -
  have "raw_cdf f ! i =
        fold (\<lambda>j c. c[j := c ! (j - 1) + f ! (j - 1) / real (length f)]) [1..<length f + 1]
          (replicate (length f + 1) 0) ! i"
    by (simp add: raw_cdf_def integrate_loop_def Let_def)
  also have "\<dots> = (if i \<le> length f
                    then replicate (length f + 1) (0::real) ! 0 + (\<Sum>k = 1..i. f ! (k - 1) / real (length f))
                    else replicate (length f + 1) 0 ! i)"
    using assms by (intro fold_running_nth) simp_all
  finally show ?thesis using assms by simp
qed

lemma raw_cdf_step:
  assumes "1 \<le> i" "i \<le> length f"
  shows "raw_cdf f ! i = raw_cdf f ! (i - 1) + f ! (i - 1) / real (length f)"
proof -
  obtain j where j: "i = Suc j" using assms(1) by (cases i) auto
  show ?thesis using assms by (simp add: raw_cdf_nth j)
qed

lemma raw_cdf_sum_list:
  assumes "i \<le> length f"
  shows "raw_cdf f ! i = sum_list (take i f) / real (length f)"
  using assms
proof (induction i)
  case 0
  then show ?case by (simp add: raw_cdf_nth)
next
  case (Suc i)
  then show ?case
    by (simp add: raw_cdf_step take_Suc_conv_app_nth add_divide_distrib)
qed

lemma length_cdf_ctor: "length (cdf (Distribution1D_ctor f)) = length f + 1"
  by (simp add: Distribution1D_ctor_def Let_def uniform_loop_def normalise_loop_def
      length_fold_upd length_raw_cdf)

lemma funcInt_ctor: "funcInt (Distribution1D_ctor f) = raw_cdf f ! length f"
  by (simp add: Distribution1D_ctor_def Let_def)

lemma func_ctor: "func (Distribution1D_ctor f) = f"
  by (simp add: Distribution1D_ctor_def Let_def)

lemma cdf_ctor_uniform:
  assumes "funcInt (Distribution1D_ctor f) = 0" "i \<le> length f"
  shows "cdf (Distribution1D_ctor f) ! i = real i / real (length f)"
proof -
  have "cdf (Distribution1D_ctor f) ! i
        = fold (\<lambda>j c. c[j := (\<lambda>j x. real j / real (length f)) j (c ! j)]) [1..<length f + 1] (raw_cdf f) ! i"
    using assms(1) by (simp add: Distribution1D_ctor_def Let_def uniform_loop_def)
  also have "\<dots> = (if 1 \<le> i \<and> i \<le> length f then real i / real (length f) else raw_cdf f ! i)"
    using assms(2) by (intro fold_pointwise_nth) (simp_all add: length_raw_cdf)
  finally show ?thesis using assms(2) by (cases "i = 0") (simp_all add: raw_cdf_nth)
qed

lemma cdf_ctor_normalised:
  assumes "funcInt (Distribution1D_ctor f) \<noteq> 0" "i \<le> length f"
  shows "cdf (Distribution1D_ctor f) ! i = raw_cdf f ! i / funcInt (Distribution1D_ctor f)"
proof -
  let ?fi = "raw_cdf f ! length f"
  have "cdf (Distribution1D_ctor f) ! i
        = fold (\<lambda>j c. c[j := (\<lambda>j x. x / ?fi) j (c ! j)]) [1..<length f + 1] (raw_cdf f) ! i"
    using assms(1) by (simp add: Distribution1D_ctor_def Let_def normalise_loop_def)
  also have "\<dots> = (if 1 \<le> i \<and> i \<le> length f then raw_cdf f ! i / ?fi else raw_cdf f ! i)"
    using assms(2) by (intro fold_pointwise_nth) (simp_all add: length_raw_cdf)
  finally show ?thesis using assms(2) by (cases "i = 0") (simp_all add: raw_cdf_nth funcInt_ctor)
qed

lemma funcInt_ctor_sum: "funcInt (Distribution1D_ctor f) = sum_list f / real (length f)"
  by (simp add: funcInt_ctor raw_cdf_sum_list)

lemma cdf_ctor_last:
  assumes "funcInt (Distribution1D_ctor f) \<noteq> 0"
  shows "cdf (Distribution1D_ctor f) ! length f = 1"
  using assms by (simp add: cdf_ctor_normalised) (simp add: funcInt_ctor)

lemma cdf_ctor_first: "cdf (Distribution1D_ctor f) ! 0 = 0"
  by (cases "funcInt (Distribution1D_ctor f) = 0")
     (simp_all add: cdf_ctor_uniform cdf_ctor_normalised raw_cdf_nth)

lemma sum_list_take_mono:
  assumes "\<forall>x \<in> set f. (0::real) \<le> x" "i \<le> j"
  shows "sum_list (take i f) \<le> sum_list (take j f)"
proof -
  have "sum_list (take j f) = sum_list (take i (take j f)) + sum_list (drop i (take j f))"
    by (metis append_take_drop_id sum_list_append)
  moreover have "take i (take j f) = take i f" using assms(2) by (simp add: min_def)
  moreover have "0 \<le> sum_list (drop i (take j f))"
    using assms(1) by (intro sum_list_nonneg) (auto dest!: in_set_dropD in_set_takeD)
  ultimately show ?thesis by simp
qed

lemma cdf_ctor_sorted:
  assumes pos: "0 < funcInt (Distribution1D_ctor f)" and nn: "\<forall>x \<in> set f. 0 \<le> x"
  shows "sorted (cdf (Distribution1D_ctor f))"
  unfolding sorted_iff_nth_mono
proof (intro allI impI)
  fix i j assume ij: "i \<le> j" and j: "j < length (cdf (Distribution1D_ctor f))"
  then have j': "j \<le> length f" and i': "i \<le> length f" by (simp_all add: length_cdf_ctor)
  have ne: "funcInt (Distribution1D_ctor f) \<noteq> 0" using pos by simp
  have "raw_cdf f ! i \<le> raw_cdf f ! j"
    using sum_list_take_mono[OF nn ij] i' j'
    by (simp add: raw_cdf_sum_list divide_right_mono)
  then show "cdf (Distribution1D_ctor f) ! i \<le> cdf (Distribution1D_ctor f) ! j"
    using pos i' j' by (simp add: cdf_ctor_normalised[OF ne] divide_right_mono)
qed

lemmas ctor_eval = Distribution1D_ctor_def raw_cdf_def integrate_loop_def uniform_loop_def
  normalise_loop_def Let_def

text \<open>
  Claim C1, as amended. For \<open>f[0..n)\<close> with \<open>n > 0\<close>: before normalisation \<open>cdf[0] = 0\<close> and
  \<open>cdf[i] = cdf[i-1] + f[i-1]/n\<close>; \<open>funcInt\<close> is \<open>cdf[n]\<close>; if \<open>funcInt = 0\<close> every \<open>cdf[i]\<close>
  becomes \<open>i/n\<close>, otherwise every entry is divided by \<open>funcInt\<close>. Whenever \<open>funcInt > 0\<close> the
  result has \<open>cdf[0] = 0\<close> and \<open>cdf[n] = 1\<close>, and it is non-decreasing when no \<open>f[i]\<close> is
  negative. Without that last condition the cdf need not be monotone: the values \<open>2, -1\<close> give
  \<open>funcInt = 1/2\<close> and the cdf \<open>0, 2, 1\<close>.
\<close>

theorem Distribution1D_ctor_cdf:
  assumes "0 < length f"
  shows "raw_cdf f ! 0 = 0
       \<and> (\<forall>i \<in> {1..length f}. raw_cdf f ! i = raw_cdf f ! (i - 1) + f ! (i - 1) / real (length f))
       \<and> funcInt (Distribution1D_ctor f) = raw_cdf f ! length f
       \<and> length (cdf (Distribution1D_ctor f)) = length f + 1
       \<and> (funcInt (Distribution1D_ctor f) = 0 \<longrightarrow>
            (\<forall>i \<in> {0..length f}. cdf (Distribution1D_ctor f) ! i = real i / real (length f)))
       \<and> (funcInt (Distribution1D_ctor f) \<noteq> 0 \<longrightarrow>
            (\<forall>i \<in> {0..length f}. cdf (Distribution1D_ctor f) ! i
                                  = raw_cdf f ! i / funcInt (Distribution1D_ctor f)))
       \<and> (0 < funcInt (Distribution1D_ctor f) \<longrightarrow>
            cdf (Distribution1D_ctor f) ! 0 = 0 \<and> cdf (Distribution1D_ctor f) ! length f = 1)
       \<and> (0 < funcInt (Distribution1D_ctor f) \<and> (\<forall>x \<in> set f. 0 \<le> x) \<longrightarrow>
            sorted (cdf (Distribution1D_ctor f)))"
proof (intro conjI)
  show "raw_cdf f ! 0 = 0" by (simp add: raw_cdf_nth)
  show "\<forall>i \<in> {1..length f}. raw_cdf f ! i = raw_cdf f ! (i - 1) + f ! (i - 1) / real (length f)"
    by (simp add: raw_cdf_step)
  show "funcInt (Distribution1D_ctor f) = raw_cdf f ! length f" by (rule funcInt_ctor)
  show "length (cdf (Distribution1D_ctor f)) = length f + 1" by (rule length_cdf_ctor)
  show "funcInt (Distribution1D_ctor f) = 0 \<longrightarrow>
        (\<forall>i \<in> {0..length f}. cdf (Distribution1D_ctor f) ! i = real i / real (length f))"
    by (simp add: cdf_ctor_uniform)
  show "funcInt (Distribution1D_ctor f) \<noteq> 0 \<longrightarrow>
        (\<forall>i \<in> {0..length f}. cdf (Distribution1D_ctor f) ! i
                              = raw_cdf f ! i / funcInt (Distribution1D_ctor f))"
    by (simp add: cdf_ctor_normalised)
  show "0 < funcInt (Distribution1D_ctor f) \<longrightarrow>
        cdf (Distribution1D_ctor f) ! 0 = 0 \<and> cdf (Distribution1D_ctor f) ! length f = 1"
    by (simp add: cdf_ctor_first cdf_ctor_last)
  show "0 < funcInt (Distribution1D_ctor f) \<and> (\<forall>x \<in> set f. 0 \<le> x) \<longrightarrow>
        sorted (cdf (Distribution1D_ctor f))"
    by (simp add: cdf_ctor_sorted)
qed

theorem Distribution1D_ctor_cdf_counterexample:
  "0 < length [2, - 1 :: real] \<and> 0 < funcInt (Distribution1D_ctor [2, - 1])
   \<and> \<not> sorted (cdf (Distribution1D_ctor [2, - 1]))"
  by (simp add: ctor_eval)

theorem Distribution1D_ctor_cdf_witness:
  "0 < length [1, 3 :: real]
   \<and> funcInt (Distribution1D_ctor [1, 3]) = 2
   \<and> cdf (Distribution1D_ctor [1, 3]) = [0, 1 / 4, 1]
   \<and> sorted (cdf (Distribution1D_ctor [1, 3]))"
proof -
  have h: "0 < length [1, 3 :: real]" by simp
  have fi: "funcInt (Distribution1D_ctor [1, 3]) = 2" by (simp add: ctor_eval)
  have nn: "\<forall>x \<in> set [1, 3 :: real]. 0 \<le> x" by simp
  have c: "cdf (Distribution1D_ctor [1, 3]) = [0, 1 / 4, 1]" by (simp add: ctor_eval)
  from Distribution1D_ctor_cdf [OF h] fi nn have "sorted (cdf (Distribution1D_ctor [1, 3]))"
    by simp
  with h fi c show ?thesis by simp
qed

section \<open>Sampling a distribution without mass\<close>

lemma find_last_eqI:
  assumes "r \<le> k" "pred r \<or> r = 0" "\<forall>j. r < j \<and> j \<le> k \<longrightarrow> \<not> pred j"
  shows "find_last pred k = r"
  using assms
proof (induction k)
  case 0
  then show ?case by simp
next
  case (Suc k)
  show ?case
  proof (cases "r = Suc k")
    case True
    with Suc.prems show ?thesis by auto
  next
    case False
    with Suc.prems have "r \<le> k" "\<not> pred (Suc k)" by auto
    with Suc show ?thesis by simp
  qed
qed

lemma all_zero_sum_list:
  fixes f :: "real list"
  assumes "\<forall>x \<in> set f. x = 0"
  shows "sum_list f = 0"
proof -
  have "f = replicate (length f) 0"
    using assms by (simp add: replicate_length_same)
  then have "sum_list f = sum_list (replicate (length f) (0::real))" by simp
  then show ?thesis by (simp add: sum_list_replicate)
qed

lemma uniform_FindInterval:
  fixes u :: real
  assumes n: "0 < n" and u: "0 \<le> u" "u < 1"
    and c: "\<forall>i \<in> {0..n}. c ! i = real i / real n" and len: "length c = n + 1"
  shows "FindInterval (length c) (\<lambda>index. c ! index \<le> u) = nat \<lfloor>u * real n\<rfloor>"
proof -
  let ?r = "nat \<lfloor>u * real n\<rfloor>"
  have un: "0 \<le> u * real n" "u * real n < real n" using n u by simp_all
  have fl: "0 \<le> \<lfloor>u * real n\<rfloor>" using un(1) by (rule zero_le_floor [THEN iffD2])
  have rr: "real ?r = of_int \<lfloor>u * real n\<rfloor>" using fl by (rule of_nat_nat)
  have r_le: "real ?r \<le> u * real n" unfolding rr by (rule of_int_floor_le)
  have r_gt: "u * real n < real ?r + 1" unfolding rr by linarith
  have "real ?r < real n" using r_le un(2) by (rule le_less_trans)
  then have "?r < n" by (rule of_nat_less_imp_less)
  then have rn: "?r \<le> n - 1" by linarith
  have "find_last (\<lambda>index. c ! index \<le> u) (n - 1) = ?r"
  proof (rule find_last_eqI [OF rn], intro disjI1)
    have "?r \<in> {0..n}" using rn by simp
    with c have "c ! ?r = real ?r / real n" by (rule bspec)
    also have "\<dots> \<le> u" using r_le n by (simp add: divide_le_eq)
    finally show "c ! ?r \<le> u" .
  next
    show "\<forall>j. ?r < j \<and> j \<le> n - 1 \<longrightarrow> \<not> c ! j \<le> u"
    proof (intro allI impI)
      fix j assume j: "?r < j \<and> j \<le> n - 1"
      then have "Suc ?r \<le> j" by linarith
      then have "real (Suc ?r) \<le> real j" by (rule of_nat_mono)
      with r_gt have "u * real n < real j" by simp
      then have "u < real j / real n" using n by (simp add: less_divide_eq)
      moreover have "j \<in> {0..n}" using j n by auto
      with c have "c ! j = real j / real n" by (rule bspec)
      ultimately show "\<not> c ! j \<le> u" by simp
    qed
  qed
  then show ?thesis by (simp add: FindInterval_def len)
qed

text \<open>
  Claim C9. For a \<open>Distribution1D\<close> whose \<open>n > 0\<close> function values are all zero, \<open>funcInt\<close> is
  \<open>0\<close> and the cdf is the uniform fallback \<open>cdf[i] = i/n\<close>. For every \<open>u\<close> in \<open>[0,1)\<close>,
  \<open>SampleDiscrete\<close> returns the index \<open>\<lfloor>u n\<rfloor>\<close> selected from that cdf, a valid index, and
  writes the pdf \<open>0\<close>, which is not \<open>1/n\<close>.
\<close>

theorem SampleDiscrete_all_zero:
  assumes "0 < length f" "\<forall>x \<in> set f. x = 0" "0 \<le> u" "u < 1"
  shows "funcInt (Distribution1D_ctor f) = 0
       \<and> (\<forall>i \<in> {0..length f}. cdf (Distribution1D_ctor f) ! i = real i / real (length f))
       \<and> SampleDiscrete (Dense (Distribution1D_ctor f)) u True False
           = Some \<lparr> sampled = \<lfloor>u * real (length f)\<rfloor>, pdf_out = Some 0, uRemapped_out = None \<rparr>
       \<and> 0 \<le> \<lfloor>u * real (length f)\<rfloor> \<and> \<lfloor>u * real (length f)\<rfloor> < int (length f)
       \<and> (0::real) \<noteq> 1 / real (length f)"
proof -
  let ?d = "Distribution1D_ctor f"
  have fi: "funcInt ?d = 0" using assms(2) by (simp add: funcInt_ctor_sum all_zero_sum_list)
  have c: "\<forall>i \<in> {0..length f}. cdf ?d ! i = real i / real (length f)"
    using fi by (simp add: cdf_ctor_uniform)
  have off: "FindInterval (length (cdf ?d)) (\<lambda>index. cdf ?d ! index \<le> u) = nat \<lfloor>u * real (length f)\<rfloor>"
    using assms(1,3,4) c by (intro uniform_FindInterval) (simp_all add: length_cdf_ctor)
  have nn: "0 \<le> \<lfloor>u * real (length f)\<rfloor>" using assms(3) by simp
  have "u * real (length f) < real (length f)" using assms(1,4) by simp
  then have lt: "\<lfloor>u * real (length f)\<rfloor> < int (length f)" by linarith
  have "SampleDiscrete (Dense ?d) u True False
        = Some \<lparr> sampled = \<lfloor>u * real (length f)\<rfloor>, pdf_out = Some 0, uRemapped_out = None \<rparr>"
    using fi nn by (simp add: SampleDiscrete_base_def off Let_def)
  with fi c nn lt assms(1) show ?thesis by simp
qed

theorem SampleDiscrete_all_zero_witness:
  "SampleDiscrete (Dense (Distribution1D_ctor [0, 0, 0, 0])) (1 / 2) True False
     = Some \<lparr> sampled = 2, pdf_out = Some 0, uRemapped_out = None \<rparr>
   \<and> cdf (Distribution1D_ctor [0, 0, 0, 0]) = [0, 1 / 4, 1 / 2, 3 / 4, 1]"
proof -
  have c: "cdf (Distribution1D_ctor [0, 0, 0, 0]) = [0, 1 / 4, 1 / 2, 3 / 4, 1]"
    by (simp add: ctor_eval)
  have "\<lfloor>(1 / 2 :: real) * real (length [0, 0, 0, 0 :: real])\<rfloor> = 2" by simp
  with SampleDiscrete_all_zero [of "[0, 0, 0, 0]" "1 / 2"] c show ?thesis by simp
qed

section \<open>Continuous sampling of the derived classes\<close>

text \<open>
  Claim C7. For every input \<open>u\<close>, \<open>SampleContinuous\<close> on a \<open>SparseDistribution1D\<close> and on an
  \<open>InterpolatedDistribution1D\<close> ends in the fatal \<open>CHECK(false)\<close>: it returns no value.
\<close>

theorem SampleContinuous_unsupported:
  "SampleContinuous (Sparse s) u = None \<and> SampleContinuous (Interpolated d ds) u = None"
  by simp

section \<open>Packed voxel keys\<close>

lemma bit_coord_word:
  assumes "0 \<le> v" "v < 2 ^ 20" "bit (word_of_int v :: 64 word) n"
  shows "n < 20"
proof (rule ccontr)
  assume "\<not> n < 20"
  then have n: "20 \<le> n" by simp
  have "take_bit 20 v = v" using assms(1,2) by (simp add: take_bit_int_eq_self)
  then have "bit v n = bit (take_bit 20 v) n" by simp
  also have "\<dots> = False" using n by (simp add: bit_take_bit_iff)
  finally have "\<not> bit v n" by simp
  with assms(3) show False by (simp add: bit_word_of_int_iff)
qed

lemma packPos_fields:
  fixes A B C :: "64 word"
  assumes A: "\<And>n. bit A n \<Longrightarrow> n < 20" and B: "\<And>n. bit B n \<Longrightarrow> n < 20"
    and C: "\<And>n. bit C n \<Longrightarrow> n < 20"
  shows "drop_bit 40 (push_bit 40 A OR push_bit 20 B OR C) = A"
    and "take_bit 20 (drop_bit 20 (push_bit 40 A OR push_bit 20 B OR C)) = B"
    and "take_bit 20 (push_bit 40 A OR push_bit 20 B OR C) = C"
    and "\<not> bit (push_bit 40 A OR push_bit 20 B OR C) 63"
proof -
  show "drop_bit 40 (push_bit 40 A OR push_bit 20 B OR C) = A"
    by (rule bit_word_eqI) (auto simp add: bit_simps dest: A B C)
  show "take_bit 20 (drop_bit 20 (push_bit 40 A OR push_bit 20 B OR C)) = B"
    by (rule bit_word_eqI) (auto simp add: bit_simps dest: A B C)
  show "take_bit 20 (push_bit 40 A OR push_bit 20 B OR C) = C"
    by (rule bit_word_eqI) (auto simp add: bit_simps dest: A B C)
  show "\<not> bit (push_bit 40 A OR push_bit 20 B OR C) 63"
    by (auto simp add: bit_simps dest: A B C)
qed

lemma word_of_int_coord_inj:
  assumes "0 \<le> v" "v < 2 ^ 20" "0 \<le> w" "w < 2 ^ 20"
    "(word_of_int v :: 64 word) = word_of_int w"
  shows "v = w"
proof -
  have "take_bit 64 v = take_bit 64 w"
    using assms(5) by (simp add: word_of_int_eq_iff)
  moreover have "take_bit 64 v = v" "take_bit 64 w = w"
    using assms(1-4) by (simp_all add: take_bit_int_eq_self)
  ultimately show ?thesis by simp
qed

lemma packPos_valid:
  assumes "0 \<le> ix" "ix < 2 ^ 20" "0 \<le> iy" "iy < 2 ^ 20" "0 \<le> iz" "iz < 2 ^ 20"
  shows "packPos (ix, iy, iz) \<noteq> invalidPackedPos"
proof -
  have "\<not> bit (packPos (ix, iy, iz)) 63"
    using packPos_fields(4) [of "word_of_int ix" "word_of_int iy" "word_of_int iz",
        OF bit_coord_word [OF assms(1,2)] bit_coord_word [OF assms(3,4)]
          bit_coord_word [OF assms(5,6)]]
    by (simp add: packPos_def)
  moreover have "bit invalidPackedPos 63" by (simp add: invalidPackedPos_def bit_simps)
  ultimately show ?thesis by metis
qed

lemma packPos_eqD:
  assumes p: "0 \<le> ix" "ix < 2 ^ 20" "0 \<le> iy" "iy < 2 ^ 20" "0 \<le> iz" "iz < 2 ^ 20"
    and q: "0 \<le> ix'" "ix' < 2 ^ 20" "0 \<le> iy'" "iy' < 2 ^ 20" "0 \<le> iz'" "iz' < 2 ^ 20"
    and eq: "packPos (ix, iy, iz) = packPos (ix', iy', iz')"
  shows "(ix, iy, iz) = (ix', iy', iz')"
proof -
  let ?A = "word_of_int ix :: 64 word" and ?B = "word_of_int iy :: 64 word"
    and ?C = "word_of_int iz :: 64 word"
  let ?A' = "word_of_int ix' :: 64 word" and ?B' = "word_of_int iy' :: 64 word"
    and ?C' = "word_of_int iz' :: 64 word"
  note f = packPos_fields [of ?A ?B ?C, OF bit_coord_word [OF p(1,2)] bit_coord_word [OF p(3,4)]
      bit_coord_word [OF p(5,6)]]
  note f' = packPos_fields [of ?A' ?B' ?C', OF bit_coord_word [OF q(1,2)] bit_coord_word [OF q(3,4)]
      bit_coord_word [OF q(5,6)]]
  have e: "push_bit 40 ?A OR push_bit 20 ?B OR ?C = push_bit 40 ?A' OR push_bit 20 ?B' OR ?C'"
    using eq by (simp add: packPos_def)
  have "?A = ?A'" using f(1) f'(1) e by metis
  moreover have "?B = ?B'" using f(2) f'(2) e by metis
  moreover have "?C = ?C'" using f(3) f'(3) e by metis
  ultimately have "ix = ix'" "iy = iy'" "iz = iz'"
    using p q by (auto intro: word_of_int_coord_inj)
  then show ?thesis by simp
qed

text \<open>
  Claim C8. A voxel triple with each coordinate in \<open>[0, 2^20)\<close> never packs to the sentinel
  \<open>0xFFFFFFFFFFFFFFFF\<close>, and two distinct such triples have different packed keys
  \<open>(ix<<40)|(iy<<20)|iz\<close>.
\<close>

theorem packPos_injective:
  assumes p: "0 \<le> ix" "ix < 2 ^ 20" "0 \<le> iy" "iy < 2 ^ 20" "0 \<le> iz" "iz < 2 ^ 20"
  shows "packPos (ix, iy, iz) \<noteq> invalidPackedPos
       \<and> (\<forall>ix' iy' iz'. 0 \<le> ix' \<and> ix' < 2 ^ 20 \<and> 0 \<le> iy' \<and> iy' < 2 ^ 20
              \<and> 0 \<le> iz' \<and> iz' < 2 ^ 20 \<and> (ix, iy, iz) \<noteq> (ix', iy', iz')
            \<longrightarrow> packPos (ix, iy, iz) \<noteq> packPos (ix', iy', iz'))"
proof (intro conjI allI impI)
  show "packPos (ix, iy, iz) \<noteq> invalidPackedPos"
    using p by (rule packPos_valid)
next
  fix ix' iy' iz'
  assume q: "0 \<le> ix' \<and> ix' < 2 ^ 20 \<and> 0 \<le> iy' \<and> iy' < 2 ^ 20
              \<and> 0 \<le> iz' \<and> iz' < 2 ^ 20 \<and> (ix, iy, iz) \<noteq> (ix', iy', iz')"
  show "packPos (ix, iy, iz) \<noteq> packPos (ix', iy', iz')"
  proof
    assume "packPos (ix, iy, iz) = packPos (ix', iy', iz')"
    then have "(ix, iy, iz) = (ix', iy', iz')"
      using p q by (intro packPos_eqD) simp_all
    with q show False by simp
  qed
qed

theorem packPos_injective_witness:
  "packPos (1, 2, 3) \<noteq> invalidPackedPos \<and> packPos (1, 2, 3) \<noteq> packPos (3, 2, 1)
   \<and> packPos (1, 2, 3) = 0x10000200003"
  using packPos_injective [of 1 2 3] by (simp add: packPos_def)

section \<open>The pdf of a sparse distribution\<close>

lemma fold_sparse_step:
  assumes "distinct (map fst m)" "i = int (length sm)" "length cs = length sm"
  shows "\<exists>bm'. fold sparse_step m (bm, sm, cs, i)
               = (bm', sm @ map fst (kept m), cs @ map snd (kept m),
                  int (length sm + length (kept m)))
           \<and> (\<forall>j < length (kept m). bm' (fst (kept m ! j)) = Some (int (length sm + j)))
           \<and> (\<forall>k. k \<notin> fst ` set (kept m) \<longrightarrow> bm' k = bm k)"
  using assms
proof (induction m arbitrary: bm sm cs i)
  case Nil
  then show ?case by (simp add: kept_def)
next
  case (Cons kv m)
  have dm: "distinct (map fst m)" and notin: "fst kv \<notin> fst ` set m"
    using Cons.prems(1) by auto
  show ?case
  proof (cases "snd kv > 0")
    case False
    then have k: "kept (kv # m) = kept m" by (simp add: kept_def)
    have "fold sparse_step (kv # m) (bm, sm, cs, i) = fold sparse_step m (bm, sm, cs, i)"
      using False by (simp add: sparse_step_def)
    then show ?thesis using Cons.IH [OF dm Cons.prems(2,3), of bm] k by simp
  next
    case True
    then have k: "kept (kv # m) = kv # kept m" by (simp add: kept_def)
    let ?bm = "bm(fst kv \<mapsto> i)"
    have step: "fold sparse_step (kv # m) (bm, sm, cs, i)
                = fold sparse_step m (?bm, sm @ [fst kv], cs @ [snd kv], i + 1)"
      using True by (simp add: sparse_step_def)
    have i': "i + 1 = int (length (sm @ [fst kv]))" using Cons.prems(2) by simp
    have l': "length (cs @ [snd kv]) = length (sm @ [fst kv])" using Cons.prems(3) by simp
    from Cons.IH [OF dm i' l', of ?bm] obtain bm' where
      f: "fold sparse_step m (?bm, sm @ [fst kv], cs @ [snd kv], i + 1)
          = (bm', (sm @ [fst kv]) @ map fst (kept m), (cs @ [snd kv]) @ map snd (kept m),
             int (length (sm @ [fst kv]) + length (kept m)))"
      and pos: "\<forall>j < length (kept m). bm' (fst (kept m ! j)) = Some (int (length (sm @ [fst kv]) + j))"
      and oth: "\<forall>k. k \<notin> fst ` set (kept m) \<longrightarrow> bm' k = ?bm k"
      by blast
    have nk: "fst kv \<notin> fst ` set (kept m)" using notin by (auto simp: kept_def)
    have "\<forall>j < length (kept (kv # m)). bm' (fst (kept (kv # m) ! j)) = Some (int (length sm + j))"
    proof (intro allI impI)
      fix j assume j: "j < length (kept (kv # m))"
      show "bm' (fst (kept (kv # m) ! j)) = Some (int (length sm + j))"
      proof (cases j)
        case 0
        then show ?thesis using oth nk k Cons.prems(2) by simp
      next
        case (Suc j')
        then show ?thesis using pos j k by simp
      qed
    qed
    moreover have "\<forall>k'. k' \<notin> fst ` set (kept (kv # m)) \<longrightarrow> bm' k' = bm k'"
      using oth k by auto
    ultimately show ?thesis using step f k by simp
  qed
qed


lemmas sparse_eval = createSparseDistribution1D_def SparseDistribution1D_ctor_def sparse_step_def
  Sparse_DiscretePDF_def Sparse_Count_def DiscretePDF_base_def Count_base_def
  Distribution1D.extend_def

lemma createSparse_fields:
  assumes d: "distinct (map fst contribMap)" and n: "0 < n"
  shows "\<exists>s. createSparseDistribution1D contribMap u n del = Some s
       \<and> func s = map snd (kept contribMap)
       \<and> funcInt s = sum_list (map snd (kept contribMap)) / real (length (kept contribMap))
       \<and> sampleMap s = map fst (kept contribMap)
       \<and> uniProb s = (if kept contribMap = [] then 1 else u)
       \<and> uniProbSingle s = uniProb s / real_of_int n
       \<and> nAll s = n
       \<and> (\<forall>j < length (kept contribMap). backMap s (fst (kept contribMap ! j)) = Some (int j))
       \<and> (\<forall>k. k \<notin> fst ` set (kept contribMap) \<longrightarrow> backMap s k = None)"
proof -
  from fold_sparse_step [OF d, of 0 "[]" "[]" Map.empty] obtain bm' where
    f: "fold sparse_step contribMap (Map.empty, [], [], 0)
        = (bm', map fst (kept contribMap), map snd (kept contribMap), int (length (kept contribMap)))"
    and pos: "\<forall>j < length (kept contribMap). bm' (fst (kept contribMap ! j)) = Some (int j)"
    and oth: "\<forall>k. k \<notin> fst ` set (kept contribMap) \<longrightarrow> bm' k = None"
    by auto
  show ?thesis
    using n pos oth
    by (simp add: createSparseDistribution1D_def f SparseDistribution1D_ctor_def Let_def
        Distribution1D.extend_def func_ctor funcInt_ctor_sum)
qed

lemma sum_list_pos_real:
  fixes xs :: "real list"
  assumes "xs \<noteq> []" "\<forall>x \<in> set xs. 0 < x"
  shows "0 < sum_list xs"
proof -
  obtain y ys where xs: "xs = y # ys" using assms(1) by (cases xs) auto
  have "0 < y" using assms(2) xs by simp
  moreover have "0 \<le> sum_list ys"
    using assms(2) xs by (intro sum_list_nonneg) (simp add: less_imp_le)
  ultimately show ?thesis using xs by simp
qed

lemma kept_sum_pos:
  assumes "kept m \<noteq> []"
  shows "0 < sum_list (map snd (kept m))"
  using assms by (intro sum_list_pos_real) (auto simp: kept_def)

lemma Sparse_pdf_S4:
  "map (Sparse_pdf [(2, 4), (5, 1)] (1 / 5) 10) [0, 1, 2, 3, 4, 5, 6, 7, 8, 9]
     = [Some (1 / 50), Some (1 / 50), Some (33 / 50), Some (1 / 50), Some (1 / 50),
        Some (9 / 50), Some (1 / 50), Some (1 / 50), Some (1 / 50), Some (1 / 50)]"
  by (simp add: Sparse_pdf_def sparse_eval ctor_eval)

text \<open>
  Claim C2, as amended. Let a \<open>SparseDistribution1D\<close> be built from a contribution map (its
  entries with a contribution above zero are kept), a uniform floor \<open>u\<close> and a total size
  \<open>n_all > 0\<close>, and let \<open>u'\<close> be \<open>u\<close> when an entry is kept and \<open>1\<close> when none is. For every
  index \<open>i\<close> in \<open>[0, n_all)\<close>: \<open>DiscretePDF(i) = u'/n_all + (1-u') * inner.DiscretePDF(back_map[i])\<close>
  when \<open>i\<close> is a kept entry, where the inner pdf is the contribution of \<open>i\<close> over the sum of
  the kept contributions, and \<open>u'/n_all\<close> otherwise. For the map \<open>{2: 4.0, 5: 1.0}\<close>,
  \<open>n_all = 10\<close> and \<open>u = 0.2\<close> the pdf is \<open>0.66\<close> at index 2, \<open>0.18\<close> at index 5 and \<open>0.02\<close>
  elsewhere, which sums to 1. With no kept entry the constructor forces the floor to \<open>1\<close>: the
  empty map with \<open>u = 0.2\<close> and \<open>n_all = 10\<close> has the pdf \<open>0.1\<close>, not \<open>0.02\<close>.
\<close>

theorem Sparse_DiscretePDF_law:
  assumes "distinct (map fst contribMap)" "0 < n" "0 \<le> i" "i < n"
  shows "(\<exists>s. createSparseDistribution1D contribMap u n del = Some s
       \<and> uniProb s = (if kept contribMap = [] then 1 else u)
       \<and> uniProbSingle s = uniProb s / real_of_int n
       \<and> (\<forall>c. (i, c) \<in> set (kept contribMap) \<longrightarrow>
            (\<exists>j p. backMap s i = Some j \<and> DiscretePDF_base s j = Some p
                 \<and> p = c / sum_list (map snd (kept contribMap))
                 \<and> DiscretePDF (Sparse s) i
                     = Some (uniProb s / real_of_int n + (1 - uniProb s) * p)))
       \<and> (i \<notin> fst ` set (kept contribMap) \<longrightarrow>
            DiscretePDF (Sparse s) i = Some (uniProb s / real_of_int n)))
       \<and> map (Sparse_pdf [(2, 4), (5, 1)] (1 / 5) 10) [0, 1, 2, 3, 4, 5, 6, 7, 8, 9]
           = [Some (1 / 50), Some (1 / 50), Some (33 / 50), Some (1 / 50), Some (1 / 50),
              Some (9 / 50), Some (1 / 50), Some (1 / 50), Some (1 / 50), Some (1 / 50)]
       \<and> 33 / 50 + 9 / 50 + 8 * (1 / 50) = (1::real)"
proof -
  let ?K = "kept contribMap"
  from createSparse_fields [OF assms(1,2), of u del] obtain s where
    s: "createSparseDistribution1D contribMap u n del = Some s"
    and fn: "func s = map snd ?K"
    and fi: "funcInt s = sum_list (map snd ?K) / real (length ?K)"
    and up: "uniProb s = (if ?K = [] then 1 else u)"
    and ups: "uniProbSingle s = uniProb s / real_of_int n"
    and na: "nAll s = n"
    and pos: "\<forall>j < length ?K. backMap s (fst (?K ! j)) = Some (int j)"
    and oth: "\<forall>k. k \<notin> fst ` set ?K \<longrightarrow> backMap s k = None"
    by blast
  have in_map: "\<forall>c. (i, c) \<in> set ?K \<longrightarrow>
            (\<exists>j p. backMap s i = Some j \<and> DiscretePDF_base s j = Some p
                 \<and> p = c / sum_list (map snd ?K)
                 \<and> DiscretePDF (Sparse s) i
                     = Some (uniProb s / real_of_int n + (1 - uniProb s) * p))"
  proof (intro allI impI)
    fix c assume "(i, c) \<in> set ?K"
    then obtain j where j: "j < length ?K" "?K ! j = (i, c)" by (auto simp: in_set_conv_nth)
    then have ne: "?K \<noteq> []" by auto
    have bm: "backMap s i = Some (int j)" using pos j by fastforce
    have tot: "sum_list (map snd ?K) \<noteq> 0" using kept_sum_pos [OF ne] by simp
    have len: "real (length ?K) \<noteq> 0" using ne by simp
    have "func s ! j = c" using fn j by simp
    then have base: "DiscretePDF_base s (int j) = Some (c / sum_list (map snd ?K))"
      using j(1) fn fi tot len by (simp add: DiscretePDF_base_def Count_base_def)
    have "DiscretePDF (Sparse s) i
          = Some (uniProb s / real_of_int n + (1 - uniProb s) * (c / sum_list (map snd ?K)))"
      using assms(3,4) bm base ups na
      by (simp add: Sparse_DiscretePDF_def Sparse_Count_def mult.commute)
    with bm base show "\<exists>j p. backMap s i = Some j \<and> DiscretePDF_base s j = Some p
                 \<and> p = c / sum_list (map snd ?K)
                 \<and> DiscretePDF (Sparse s) i
                     = Some (uniProb s / real_of_int n + (1 - uniProb s) * p)"
      by blast
  qed
  have not_in: "i \<notin> fst ` set ?K \<longrightarrow> DiscretePDF (Sparse s) i = Some (uniProb s / real_of_int n)"
    using oth assms(3,4) ups na by (simp add: Sparse_DiscretePDF_def Sparse_Count_def)
  from s up ups in_map not_in
  have "\<exists>s. createSparseDistribution1D contribMap u n del = Some s
       \<and> uniProb s = (if kept contribMap = [] then 1 else u)
       \<and> uniProbSingle s = uniProb s / real_of_int n
       \<and> (\<forall>c. (i, c) \<in> set (kept contribMap) \<longrightarrow>
            (\<exists>j p. backMap s i = Some j \<and> DiscretePDF_base s j = Some p
                 \<and> p = c / sum_list (map snd (kept contribMap))
                 \<and> DiscretePDF (Sparse s) i
                     = Some (uniProb s / real_of_int n + (1 - uniProb s) * p)))
       \<and> (i \<notin> fst ` set (kept contribMap) \<longrightarrow>
            DiscretePDF (Sparse s) i = Some (uniProb s / real_of_int n))"
    by blast
  moreover have "33 / 50 + 9 / 50 + 8 * (1 / 50) = (1::real)" by simp
  ultimately show ?thesis using Sparse_pdf_S4 by (intro conjI)
qed

theorem Sparse_DiscretePDF_law_witness:
  "distinct (map fst [(2 :: int, 4 :: real), (5, 1)]) \<and> (2, 4) \<in> set (kept [(2, 4), (5, 1)])
   \<and> Sparse_pdf [(2, 4), (5, 1)] (1 / 5) 10 2 = Some ((1 / 5) / 10 + (1 - 1 / 5) * (4 / 5))
   \<and> Sparse_pdf [(2, 4), (5, 1)] (1 / 5) 10 3 = Some ((1 / 5) / 10)"
proof -
  let ?m = "[(2 :: int, 4 :: real), (5, 1)]"
  have d: "distinct (map fst ?m)" by simp
  have k: "kept ?m = ?m" by (simp add: kept_def)
  from Sparse_DiscretePDF_law [OF d, of 10 2 "1 / 5" True] k
  have "Sparse_pdf ?m (1 / 5) 10 2 = Some ((1 / 5) / 10 + (1 - 1 / 5) * (4 / 5))"
    by (auto simp add: Sparse_pdf_def)
  moreover from Sparse_DiscretePDF_law [OF d, of 10 3 "1 / 5" True] k
  have "Sparse_pdf ?m (1 / 5) 10 3 = Some ((1 / 5) / 10)"
    by (auto simp add: Sparse_pdf_def)
  ultimately show ?thesis using d k by simp
qed

theorem Sparse_DiscretePDF_law_counterexample:
  "Sparse_pdf [] (1 / 5) 10 0 = Some (1 / 10) \<and> Sparse_pdf [] (1 / 5) 10 0 \<noteq> Some ((1 / 5) / 10)"
  by (simp add: Sparse_pdf_def sparse_eval ctor_eval)

section \<open>The pdf of an interpolated distribution\<close>

lemma Interp_pdf_loop_sum:
  assumes "\<forall>j < length ds. DiscretePDF (ds ! j) index = Some (p j)"
  shows "Interp_pdf_loop ds c i index acc
         = Some (acc + (\<Sum>j < length ds. p j * (c ! (i + j + 1) - c ! (i + j))))"
  using assms
proof (induction ds arbitrary: i acc p)
  case Nil
  then show ?case by simp
next
  case (Cons x xs)
  from Cons.prems have hd: "DiscretePDF x index = Some (p 0)" by auto
  from Cons.prems have tl: "\<forall>j < length xs. DiscretePDF (xs ! j) index = Some (p (Suc j))"
    by auto
  have "Interp_pdf_loop (x # xs) c i index acc
        = Interp_pdf_loop xs c (i + 1) index (acc + p 0 * (c ! (i + 1) - c ! i))"
    using hd by simp
  also have "\<dots> = Some (acc + p 0 * (c ! (i + 1) - c ! i)
                   + (\<Sum>j < length xs. p (Suc j) * (c ! (i + 1 + j + 1) - c ! (i + 1 + j))))"
    by (rule Cons.IH [OF tl])
  also have "acc + p 0 * (c ! (i + 1) - c ! i)
               + (\<Sum>j < length xs. p (Suc j) * (c ! (i + 1 + j + 1) - c ! (i + 1 + j)))
             = acc + (\<Sum>j < length (x # xs). p j * (c ! (i + j + 1) - c ! (i + j)))"
    by (simp add: sum.lessThan_Suc_shift add.assoc del: sum.lessThan_Suc)
  finally show ?case .
qed

lemma cdf_ctor_diff:
  assumes "sum_list w \<noteq> 0" "j < length w"
  shows "cdf (Distribution1D_ctor w) ! (j + 1) - cdf (Distribution1D_ctor w) ! j
         = w ! j / sum_list w"
proof -
  have n: "0 < length w" using assms(2) by auto
  have fi: "funcInt (Distribution1D_ctor w) \<noteq> 0"
    using assms(1) n by (simp add: funcInt_ctor_sum)
  have "raw_cdf w ! (j + 1) - raw_cdf w ! j = w ! j / real (length w)"
    using raw_cdf_step [of "j + 1" w] assms(2) by simp
  then have "cdf (Distribution1D_ctor w) ! (j + 1) - cdf (Distribution1D_ctor w) ! j
        = (w ! j / real (length w)) / funcInt (Distribution1D_ctor w)"
    using assms(2) by (simp add: cdf_ctor_normalised [OF fi] diff_divide_distrib [symmetric])
  also have "\<dots> = w ! j / sum_list w"
    using n by (simp add: funcInt_ctor_sum)
  finally show ?thesis .
qed

text \<open>
  Claim C3. For an \<open>InterpolatedDistribution1D\<close> over \<open>m > 0\<close> children with weights
  \<open>w[0..m)\<close> and an index that is valid in all children (child \<open>j\<close> answers \<open>p j\<close>):
  \<open>DiscretePDF(index)\<close> is the sum over \<open>j\<close> of \<open>p j * (cdf[j+1] - cdf[j])\<close>, and the cdf
  differences are the normalised weights \<open>w[j] / \<Sum> w\<close> (when the weights do not sum to zero).
  Children with the pdfs \<open>[1,0,0]\<close> and \<open>[0,0,1]\<close> and the weights \<open>[0.25, 0.75]\<close> give the
  pdf \<open>[0.25, 0, 0.75]\<close>.
\<close>

theorem Interp_DiscretePDF_law:
  assumes "length ds = length w" "0 < length w"
    and "\<forall>j < length ds. DiscretePDF (ds ! j) index = Some (p j)"
  shows "InterpolatedDistribution1D_ctor w ds = Some (Interpolated (Distribution1D_ctor w) ds)
       \<and> DiscretePDF (Interpolated (Distribution1D_ctor w) ds) index
           = Some (\<Sum>j < length w. p j * (cdf (Distribution1D_ctor w) ! (j + 1)
                                            - cdf (Distribution1D_ctor w) ! j))
       \<and> (sum_list w \<noteq> 0 \<longrightarrow>
            (\<forall>j < length w. cdf (Distribution1D_ctor w) ! (j + 1) - cdf (Distribution1D_ctor w) ! j
                               = w ! j / sum_list w))
       \<and> map (DiscretePDF (Interpolated (Distribution1D_ctor [1 / 4, 3 / 4])
                 [Dense (Distribution1D_ctor [1, 0, 0]), Dense (Distribution1D_ctor [0, 0, 1])]))
             [0, 1, 2]
           = [Some (1 / 4), Some 0, Some (3 / 4)]"
proof (intro conjI)
  show "InterpolatedDistribution1D_ctor w ds = Some (Interpolated (Distribution1D_ctor w) ds)"
    using assms(2) by (simp add: InterpolatedDistribution1D_ctor_def)
  show "DiscretePDF (Interpolated (Distribution1D_ctor w) ds) index
           = Some (\<Sum>j < length w. p j * (cdf (Distribution1D_ctor w) ! (j + 1)
                                            - cdf (Distribution1D_ctor w) ! j))"
    using Interp_pdf_loop_sum [OF assms(3), of "cdf (Distribution1D_ctor w)" 0 0] assms(1)
    by simp
  show "sum_list w \<noteq> 0 \<longrightarrow>
            (\<forall>j < length w. cdf (Distribution1D_ctor w) ! (j + 1) - cdf (Distribution1D_ctor w) ! j
                               = w ! j / sum_list w)"
    using cdf_ctor_diff [of w] by auto
  show "map (DiscretePDF (Interpolated (Distribution1D_ctor [1 / 4, 3 / 4])
                 [Dense (Distribution1D_ctor [1, 0, 0]), Dense (Distribution1D_ctor [0, 0, 1])]))
             [0, 1, 2]
           = [Some (1 / 4), Some 0, Some (3 / 4)]"
    by (simp add: ctor_eval DiscretePDF_base_def Count_base_def)
qed

theorem Interp_DiscretePDF_law_witness:
  "DiscretePDF (Dense (Distribution1D_ctor [1, 0, 0])) 0 = Some 1
   \<and> DiscretePDF (Dense (Distribution1D_ctor [0, 0, 1])) 0 = Some 0
   \<and> DiscretePDF (Interpolated (Distribution1D_ctor [1 / 4, 3 / 4])
        [Dense (Distribution1D_ctor [1, 0, 0]), Dense (Distribution1D_ctor [0, 0, 1])]) 0
      = Some (1 * (1 / 4 - 0) + 0 * (1 - 1 / 4))
   \<and> cdf (Distribution1D_ctor [1 / 4, 3 / 4]) ! (1 + 1) - cdf (Distribution1D_ctor [1 / 4, 3 / 4]) ! 1
      = [1 / 4, 3 / 4] ! 1 / sum_list [1 / 4, 3 / 4 :: real]"
proof -
  let ?ds = "[Dense (Distribution1D_ctor [1, 0, 0]), Dense (Distribution1D_ctor [0, 0, 1])]"
  let ?w = "[1 / 4, 3 / 4 :: real]"
  have a: "DiscretePDF (Dense (Distribution1D_ctor [1, 0, 0])) 0 = Some 1"
    by (simp add: ctor_eval DiscretePDF_base_def Count_base_def)
  have b: "DiscretePDF (Dense (Distribution1D_ctor [0, 0, 1])) 0 = Some 0"
    by (simp add: ctor_eval DiscretePDF_base_def Count_base_def)
  have h: "\<forall>j < length ?ds. DiscretePDF (?ds ! j) 0 = Some ((\<lambda>j. if j = 0 then 1 else 0) j)"
    using a b by (simp add: less_Suc_eq)
  have c: "cdf (Distribution1D_ctor ?w) = [0, 1 / 4, 1]" by (simp add: ctor_eval)
  have "DiscretePDF (Interpolated (Distribution1D_ctor ?w) ?ds) 0
        = Some (\<Sum>j < length ?w. (if j = 0 then 1 else 0)
               * (cdf (Distribution1D_ctor ?w) ! (j + 1) - cdf (Distribution1D_ctor ?w) ! j))"
    using Interp_DiscretePDF_law [of ?ds ?w 0 "\<lambda>j. if j = 0 then 1 else 0", OF _ _ h]
    by simp
  moreover have "cdf (Distribution1D_ctor ?w) ! (1 + 1) - cdf (Distribution1D_ctor ?w) ! 1
                 = ?w ! 1 / sum_list ?w"
    using Interp_DiscretePDF_law [of ?ds ?w 0 "\<lambda>j. if j = 0 then 1 else 0", OF _ _ h]
    by simp
  ultimately show ?thesis using a b c by (simp add: lessThan_Suc)
qed

section \<open>Which clusters are kept\<close>

lemma fold_photon_step:
  "fold (photon_step cloud) cluster (c, lc, k)
   = (c\<lparr> cx := cx c + (\<Sum>i \<leftarrow> hits cloud cluster. px (cloud ! i)),
         cy := cy c + (\<Sum>i \<leftarrow> hits cloud cluster. py (cloud ! i)),
         cz := cz c + (\<Sum>i \<leftarrow> hits cloud cluster. pz (cloud ! i)) \<rparr>,
      fold (\<lambda>i. contrib_add (lightNum (cloud ! i)) (beta (cloud ! i))) (hits cloud cluster) lc,
      k + int (length (hits cloud cluster)))"
proof (induction cluster arbitrary: c lc k)
  case Nil
  then show ?case by (simp add: hits_def)
next
  case (Cons i cluster)
  show ?case
  proof (cases "lightNum (cloud ! i) = - 1")
    case True
    then have "hits cloud (i # cluster) = hits cloud cluster" by (simp add: hits_def)
    moreover have "fold (photon_step cloud) (i # cluster) (c, lc, k)
                   = fold (photon_step cloud) cluster (c, lc, k)"
      using True by (simp add: photon_step_def)
    ultimately show ?thesis using Cons.IH by simp
  next
    case False
    then have h: "hits cloud (i # cluster) = i # hits cloud cluster" by (simp add: hits_def)
    have "fold (photon_step cloud) (i # cluster) (c, lc, k)
          = fold (photon_step cloud) cluster
              (c\<lparr> cx := cx c + px (cloud ! i), cy := cy c + py (cloud ! i),
                   cz := cz c + pz (cloud ! i) \<rparr>,
               contrib_add (lightNum (cloud ! i)) (beta (cloud ! i)) lc, k + 1)"
      using False by (simp add: photon_step_def Let_def)
    then show ?thesis using Cons.IH h by (simp add: add.assoc)
  qed
qed

lemma keys_contrib_add:
  "map fst (contrib_add k v m) = (if k \<in> set (map fst m) then map fst m else map fst m @ [k])"
proof (induction m)
  case Nil
  then show ?case by simp
next
  case (Cons a m)
  obtain k' x where a: "a = (k', x)" by (cases a)
  show ?case using Cons.IH by (cases "k' = k") (simp_all add: a)
qed

lemma distinct_contrib_add:
  "distinct (map fst m) \<Longrightarrow> distinct (map fst (contrib_add k v m))"
  by (simp add: keys_contrib_add)

lemma distinct_fold_contrib_add:
  "distinct (map fst m) \<Longrightarrow>
   distinct (map fst (fold (\<lambda>i. contrib_add (f i) (g i)) is m))"
  by (induction "is" arbitrary: m) (simp_all add: distinct_contrib_add)

lemma cluster_body_eq:
  "cluster_body cloud thr mcs nLights cluster =
     (if int (length (hits cloud cluster)) > thr
      then (case createSparseDistribution1D (cluster_contrib cloud cluster) mcs nLights False of
              None \<Rightarrow> None
            | Some s \<Rightarrow>
                Some (Some \<lparr> cx = (\<Sum>i \<leftarrow> hits cloud cluster. px (cloud ! i))
                                    / real (length (hits cloud cluster)),
                             cy = (\<Sum>i \<leftarrow> hits cloud cluster. py (cloud ! i))
                                    / real (length (hits cloud cluster)),
                             cz = (\<Sum>i \<leftarrow> hits cloud cluster. pz (cloud ! i))
                                    / real (length (hits cloud cluster)),
                             cdistr = Some (Sparse s),
                             weight = int (length (hits cloud cluster)) \<rparr>))
      else Some None)"
  by (simp add: cluster_body_def fold_photon_step cluster_contrib_def split: option.splits)

text \<open>
  Claim C5, as amended. In the preprocess of \<open>PhotonBasedCdfKdTreeLightDistribution\<close> a leaf
  cluster is dropped exactly when it holds at most \<open>photonThreshold\<close> intersecting photons;
  every cluster with more than \<open>photonThreshold\<close> of them is kept and stored with its centroid
  (the mean position of its intersecting photons), its sparse distribution (built from the
  accumulated contributions) and its photon count as weight. The test is
  \<open>numPhotons > photonThreshold\<close>: a cluster with exactly \<open>photonThreshold\<close> photons is
  dropped.
\<close>

theorem buildCluster_threshold:
  shows "(cluster_body cloud thr mcs nLights cluster = Some None
            \<longleftrightarrow> int (length (hits cloud cluster)) \<le> thr)
       \<and> (int (length (hits cloud cluster)) > thr \<and> 0 < nLights \<longrightarrow>
            (\<exists>s. createSparseDistribution1D (cluster_contrib cloud cluster) mcs nLights False = Some s
               \<and> cluster_body cloud thr mcs nLights cluster
                   = Some (Some \<lparr> cx = (\<Sum>i \<leftarrow> hits cloud cluster. px (cloud ! i))
                                          / real (length (hits cloud cluster)),
                                   cy = (\<Sum>i \<leftarrow> hits cloud cluster. py (cloud ! i))
                                          / real (length (hits cloud cluster)),
                                   cz = (\<Sum>i \<leftarrow> hits cloud cluster. pz (cloud ! i))
                                          / real (length (hits cloud cluster)),
                                   cdistr = Some (Sparse s),
                                   weight = int (length (hits cloud cluster)) \<rparr>)))
       \<and> (0 < nLights \<longrightarrow>
            (\<exists>pts'. buildCluster cloud thr mcs nLights clusters pts = Some (pts @ pts')
               \<and> length pts' = length (filter (\<lambda>c. int (length (hits cloud c)) > thr) clusters)
               \<and> set pts' = {r. \<exists>c \<in> set clusters. cluster_body cloud thr mcs nLights c = Some (Some r)}))"
proof (intro conjI)
  show "cluster_body cloud thr mcs nLights cluster = Some None
            \<longleftrightarrow> int (length (hits cloud cluster)) \<le> thr"
    by (auto simp add: cluster_body_eq split: option.splits)
next
  have created: "0 < nLights \<Longrightarrow>
      \<exists>s. createSparseDistribution1D (cluster_contrib cloud c) mcs nLights False = Some s" for c
  proof -
    assume n: "0 < nLights"
    have "distinct (map fst (cluster_contrib cloud c))"
      unfolding cluster_contrib_def by (rule distinct_fold_contrib_add) simp
    from createSparse_fields [OF this n, of mcs False] show ?thesis by blast
  qed
  show "int (length (hits cloud cluster)) > thr \<and> 0 < nLights \<longrightarrow>
            (\<exists>s. createSparseDistribution1D (cluster_contrib cloud cluster) mcs nLights False = Some s
               \<and> cluster_body cloud thr mcs nLights cluster
                   = Some (Some \<lparr> cx = (\<Sum>i \<leftarrow> hits cloud cluster. px (cloud ! i))
                                          / real (length (hits cloud cluster)),
                                   cy = (\<Sum>i \<leftarrow> hits cloud cluster. py (cloud ! i))
                                          / real (length (hits cloud cluster)),
                                   cz = (\<Sum>i \<leftarrow> hits cloud cluster. pz (cloud ! i))
                                          / real (length (hits cloud cluster)),
                                   cdistr = Some (Sparse s),
                                   weight = int (length (hits cloud cluster)) \<rparr>))"
  proof
    assume a: "int (length (hits cloud cluster)) > thr \<and> 0 < nLights"
    then obtain s where
      "createSparseDistribution1D (cluster_contrib cloud cluster) mcs nLights False = Some s"
      using created by blast
    then show "\<exists>s. createSparseDistribution1D (cluster_contrib cloud cluster) mcs nLights False = Some s
               \<and> cluster_body cloud thr mcs nLights cluster
                   = Some (Some \<lparr> cx = (\<Sum>i \<leftarrow> hits cloud cluster. px (cloud ! i))
                                          / real (length (hits cloud cluster)),
                                   cy = (\<Sum>i \<leftarrow> hits cloud cluster. py (cloud ! i))
                                          / real (length (hits cloud cluster)),
                                   cz = (\<Sum>i \<leftarrow> hits cloud cluster. pz (cloud ! i))
                                          / real (length (hits cloud cluster)),
                                   cdistr = Some (Sparse s),
                                   weight = int (length (hits cloud cluster)) \<rparr>)"
      using a by (simp add: cluster_body_eq)
  qed
  show "0 < nLights \<longrightarrow>
            (\<exists>pts'. buildCluster cloud thr mcs nLights clusters pts = Some (pts @ pts')
               \<and> length pts' = length (filter (\<lambda>c. int (length (hits cloud c)) > thr) clusters)
               \<and> set pts' = {r. \<exists>c \<in> set clusters. cluster_body cloud thr mcs nLights c = Some (Some r)})"
  proof
    assume n: "0 < nLights"
    show "\<exists>pts'. buildCluster cloud thr mcs nLights clusters pts = Some (pts @ pts')
               \<and> length pts' = length (filter (\<lambda>c. int (length (hits cloud c)) > thr) clusters)
               \<and> set pts' = {r. \<exists>c \<in> set clusters. cluster_body cloud thr mcs nLights c = Some (Some r)}"
    proof (induction clusters arbitrary: pts)
      case Nil
      then show ?case by simp
    next
      case (Cons c clusters)
      show ?case
      proof (cases "int (length (hits cloud c)) > thr")
        case False
        then have b: "cluster_body cloud thr mcs nLights c = Some None"
          by (simp add: cluster_body_eq)
        from Cons [of pts] obtain pts' where
          "buildCluster cloud thr mcs nLights clusters pts = Some (pts @ pts')"
          "length pts' = length (filter (\<lambda>c. int (length (hits cloud c)) > thr) clusters)"
          "set pts' = {r. \<exists>c \<in> set clusters. cluster_body cloud thr mcs nLights c = Some (Some r)}"
          by blast
        then show ?thesis using b False by (intro exI [of _ pts']) auto
      next
        case True
        from created [OF n, of c] obtain s where
          s: "createSparseDistribution1D (cluster_contrib cloud c) mcs nLights False = Some s"
          by blast
        then obtain r where b: "cluster_body cloud thr mcs nLights c = Some (Some r)"
          using True by (simp add: cluster_body_eq)
        from Cons [of "pts @ [r]"] obtain pts' where
          "buildCluster cloud thr mcs nLights clusters (pts @ [r]) = Some ((pts @ [r]) @ pts')"
          "length pts' = length (filter (\<lambda>c. int (length (hits cloud c)) > thr) clusters)"
          "set pts' = {r. \<exists>c \<in> set clusters. cluster_body cloud thr mcs nLights c = Some (Some r)}"
          by blast
        then show ?thesis using b True by (intro exI [of _ "r # pts'"]) auto
      qed
    qed
  qed
qed

theorem buildCluster_threshold_witness:
  "int (length (hits [\<lparr> px = 1, py = 2, pz = 3, beta = 1, lightNum = 0 \<rparr>,
                      \<lparr> px = 3, py = 2, pz = 1, beta = 2, lightNum = 1 \<rparr>] [0, 1])) > 1
   \<and> map_option (map_option (\<lambda>c. (cx c, cy c, cz c, weight c)))
        (cluster_body [\<lparr> px = 1, py = 2, pz = 3, beta = 1, lightNum = 0 \<rparr>,
                       \<lparr> px = 3, py = 2, pz = 1, beta = 2, lightNum = 1 \<rparr>] 1 (1 / 1000) 2 [0, 1])
       = Some (Some (2, 2, 2, 2))"
proof -
  let ?cloud = "[\<lparr> px = 1, py = 2, pz = 3, beta = 1, lightNum = 0 \<rparr>,
                 \<lparr> px = 3, py = 2, pz = 1, beta = 2, lightNum = 1 \<rparr>]"
  have h: "hits ?cloud [0, 1] = [0, 1]" by (simp add: hits_def)
  from buildCluster_threshold [of ?cloud 1 "1 / 1000" 2 "[0, 1]" "[]" "[]"] h
  have "\<exists>s. cluster_body ?cloud 1 (1 / 1000) 2 [0, 1]
             = Some (Some \<lparr> cx = 2, cy = 2, cz = 2, cdistr = Some (Sparse s), weight = 2 \<rparr>)"
    by auto
  then show ?thesis using h by auto
qed

theorem buildCluster_threshold_counterexample:
  "hits [\<lparr> px = 0, py = 0, pz = 0, beta = 1, lightNum = 0 \<rparr>] [0] = [0]
   \<and> int (length (hits [\<lparr> px = 0, py = 0, pz = 0, beta = 1, lightNum = 0 \<rparr>] [0])) \<ge> 1
   \<and> cluster_body [\<lparr> px = 0, py = 0, pz = 0, beta = 1, lightNum = 0 \<rparr>] 1 (1 / 1000) 1 [0]
       = Some None
   \<and> buildCluster [\<lparr> px = 0, py = 0, pz = 0, beta = 1, lightNum = 0 \<rparr>] 1 (1 / 1000) 1 [[0]] []
       = Some []"
  by (simp add: hits_def cluster_body_def photon_step_def)

section \<open>The sub-sample at the top of the unit interval\<close>

lemma top_exp_eq:
  assumes "2 powi e \<le> \<bar>x\<bar>" "\<bar>x\<bar> < 2 powi (e + 1)" "emin \<le> e" "e \<le> emin + int k"
  shows "top_exp emin x k = e"
  using assms(3,4)
proof (induction k)
  case 0
  then show ?case by simp
next
  case (Suc k)
  show ?case
  proof (cases "e = emin + int (Suc k)")
    case True
    then show ?thesis using assms(1) by simp
  next
    case False
    then have le: "e \<le> emin + int k" using Suc.prems by simp
    then have "(2::real) powi (e + 1) \<le> 2 powi (emin + int (Suc k))"
      by (intro power_int_increasing) simp_all
    then have "\<not> 2 powi (emin + int (Suc k)) \<le> \<bar>x\<bar>" using assms(2) by linarith
    then show ?thesis using Suc.IH [OF Suc.prems(1) le] by simp
  qed
qed

lemma rne_eval:
  assumes "2 powi e \<le> \<bar>x\<bar>" "\<bar>x\<bar> < 2 powi (e + 1)" "emin \<le> e" "e \<le> emin + int k"
  shows "rne p emin k x = of_int (rne_int (x / 2 powi (e - int p + 1))) * 2 powi (e - int p + 1)"
  by (simp add: rne_def top_exp_eq [OF assms] Let_def)

lemma binary32_eval:
  assumes "2 powi e \<le> \<bar>x\<bar>" "\<bar>x\<bar> < 2 powi (e + 1)" "- 126 \<le> e" "e \<le> 127"
  shows "binary32 x = of_int (rne_int (x / 2 powi (e - 23))) * 2 powi (e - 23)"
  unfolding binary32_def using rne_eval [OF assms(1,2), of "- 126" 253 24] assms(3,4) by simp

lemma binary64_eval:
  assumes "2 powi e \<le> \<bar>x\<bar>" "\<bar>x\<bar> < 2 powi (e + 1)" "- 1022 \<le> e" "e \<le> 1023"
  shows "binary64 x = of_int (rne_int (x / 2 powi (e - 52))) * 2 powi (e - 52)"
  unfolding binary64_def using rne_eval [OF assms(1,2), of "- 1022" 2045 53] assms(3,4) by simp

lemma b32_1: "binary32 1 = 1"
  using binary32_eval [of 0 1] by (simp add: rne_int_def)

lemma b32_a: "binary32 (33554427 / 33554432) = 8388607 / 8388608"
  using binary32_eval [of "- 1" "33554427 / 33554432"] by (simp add: rne_int_def Let_def)

lemma b32_b: "binary32 (33554429 / 33554432) = 8388607 / 8388608"
  using binary32_eval [of "- 1" "33554429 / 33554432"] by (simp add: rne_int_def Let_def)

lemma b64_c:
  "binary64 (85070591730234615865843651857942052863 / 85070591730234615865843651857942052864) = 1"
  using binary64_eval [of "- 1"
      "85070591730234615865843651857942052863 / 85070591730234615865843651857942052864"]
  by (simp add: rne_int_def Let_def)

lemma b32_0: "binary32 0 = 0"
  by (simp add: binary32_def rne_def rne_int_def Let_def)

lemma b32_2: "binary32 2 = 2"
  using binary32_eval [of 1 2] by (simp add: rne_int_def)

lemma b32_w0: "binary32 (3 / 33554432) = 3 / 33554432"
  using binary32_eval [of "- 24" "3 / 33554432"] by (simp add: rne_int_def Let_def)

lemma b32_w1: "binary32 (16777215 / 16777216) = 16777215 / 16777216"
  using binary32_eval [of "- 1" "16777215 / 16777216"] by (simp add: rne_int_def Let_def)

lemma b32_s: "binary32 (33554433 / 33554432) = 1"
  using binary32_eval [of 0 "33554433 / 33554432"] by (simp add: rne_int_def Let_def)

lemmas b32_evals = b32_0 b32_1 b32_2 b32_w0 b32_w1 b32_s b32_a b32_b

lemma ctor_f32_example:
  "cdf (Distribution1D_ctor_f32 [3 / 2 ^ 24, 2 - 1 / 2 ^ 23]) = [0, 3 / 2 ^ 25, 1]"
  by (simp add: Distribution1D_ctor_f32_def integrate_loop_f32_def uniform_loop_f32_def
      normalise_loop_f32_def Let_def b32_evals)

text \<open>
  Claim C6 says that the sub-sample passed to the selected child is strictly below \<open>1\<close> for
  every \<open>u\<close> in \<open>[0,1)\<close>, a computed value of \<open>1\<close> or more being replaced by the largest
  \<open>float\<close> below \<open>1\<close>. The code replaces it by \<open>1.0 - FLT_MIN\<close>, and that difference rounds
  to \<open>1\<close>. For the weights \<open>3 \<cdot> 2^-24\<close> and \<open>2 - 2^-23\<close> (both of type \<open>float\<close>) the cdf is
  \<open>0, 3 \<cdot> 2^-25, 1\<close>; for \<open>u = 1 - 2^-24\<close>, the largest \<open>float\<close> below \<open>1\<close>, both
  \<open>u - cdf[1]\<close> and \<open>cdf[2] - cdf[1]\<close> round to \<open>1 - 2^-23\<close>, the quotient is \<open>1\<close>, and the child
  is sampled with \<open>uSub = 1\<close>.
\<close>

theorem Interp_uSub_binary32:
  "binary32 (3 / 2 ^ 24) = 3 / 2 ^ 24 \<and> binary32 (2 - 1 / 2 ^ 23) = 2 - 1 / 2 ^ 23
   \<and> binary32 (1 - 1 / 2 ^ 24) = 1 - 1 / 2 ^ 24
   \<and> (0::real) \<le> 1 - 1 / 2 ^ 24 \<and> (1::real) - 1 / 2 ^ 24 < 1
   \<and> cdf (Distribution1D_ctor_f32 [3 / 2 ^ 24, 2 - 1 / 2 ^ 23]) = [0, 3 / 2 ^ 25, 1]
   \<and> Interp_uSub_f32 (Distribution1D_ctor_f32 [3 / 2 ^ 24, 2 - 1 / 2 ^ 23]) (1 - 1 / 2 ^ 24) = 1
   \<and> binary32 (binary64 (1 - FLT_MIN)) = 1"
proof -
  have w0: "binary32 (3 / 2 ^ 24) = 3 / 2 ^ 24"
    using binary32_eval [of "- 23" "3 / 2 ^ 24"] by (simp add: rne_int_def Let_def)
  have w1: "binary32 (2 - 1 / 2 ^ 23) = 2 - 1 / 2 ^ 23"
    using binary32_eval [of 0 "2 - 1 / 2 ^ 23"] by (simp add: rne_int_def Let_def)
  have clamp: "binary32 (binary64 (1 - FLT_MIN)) = 1"
    by (simp add: FLT_MIN_def b64_c b32_1)
  have u: "binary32 (1 - 1 / 2 ^ 24) = 1 - 1 / 2 ^ 24"
    using b32_w1 by simp
  have "Interp_uSub_f32 (Distribution1D_ctor_f32 [3 / 2 ^ 24, 2 - 1 / 2 ^ 23]) (1 - 1 / 2 ^ 24) = 1"
    unfolding Interp_uSub_f32_def ctor_f32_example
    by (simp add: FindInterval_def Let_def b32_evals b64_c FLT_MIN_def)
  with w0 w1 u ctor_f32_example clamp show ?thesis by simp
qed

section \<open>The weights of the trilinear blend\<close>

lemma rne_int_err: "\<bar>real_of_int (rne_int y) - y\<bar> \<le> 1 / 2"
proof -
  have "real_of_int \<lfloor>y\<rfloor> \<le> y" "y < real_of_int \<lfloor>y\<rfloor> + 1" by linarith+
  then show ?thesis by (auto simp add: rne_int_def Let_def)
qed

lemma top_exp_cases: "2 powi (top_exp emin x k) \<le> \<bar>x\<bar> \<or> top_exp emin x k = emin"
  by (induction k) auto

lemma binary32_err: "\<bar>binary32 x - x\<bar> \<le> \<bar>x\<bar> / 2 ^ 24 + 1 / 2 ^ 150"
proof -
  define e where "e = top_exp (- 126) x 253"
  define u :: real where "u = 2 powi (e - 23)"
  have u: "0 < u" by (simp add: u_def)
  have b: "binary32 x = real_of_int (rne_int (x / u)) * u"
    by (simp add: binary32_def rne_def Let_def e_def u_def)
  have "binary32 x - x = (real_of_int (rne_int (x / u)) - x / u) * u"
    using u by (simp add: b field_simps)
  then have "\<bar>binary32 x - x\<bar> = \<bar>real_of_int (rne_int (x / u)) - x / u\<bar> * u"
    using u by (simp add: abs_mult)
  also have "\<dots> \<le> (1 / 2) * u"
    using rne_int_err [of "x / u"] u by (intro mult_right_mono) simp_all
  finally have err: "\<bar>binary32 x - x\<bar> \<le> u / 2" by simp
  have half: "u / 2 = 2 powi e / 2 ^ 24"
    by (simp add: u_def power_int_diff)
  from top_exp_cases [of "- 126" x 253] show ?thesis
  proof
    assume "2 powi top_exp (- 126) x 253 \<le> \<bar>x\<bar>"
    then have "2 powi e / 2 ^ 24 \<le> \<bar>x\<bar> / 2 ^ 24" by (simp add: e_def divide_right_mono)
    with err half show ?thesis by simp
  next
    assume "top_exp (- 126) x 253 = - 126"
    then have "e = - 126" by (simp add: e_def)
    then have "u / 2 = 1 / 2 ^ 150" by (simp add: u_def power_int_minus field_simps)
    with err have "\<bar>binary32 x - x\<bar> \<le> 1 / 2 ^ 150" by (simp only:)
    moreover have "0 \<le> \<bar>x\<bar> / 2 ^ 24" by simp
    ultimately show ?thesis by linarith
  qed
qed

lemma coord_set_coord:
  "coord (set_coord v i x) k = (if (if i = 0 then 0 else if i = 1 then 1 else 2)
                                   = (if k = 0 then 0 else if k = 1 then 1 else (2::nat))
                                then x else coord v k)"
  by (cases v) simp

lemma coord_neighbour_same: "i < 3 \<Longrightarrow> coord (neighbour i off v) i = coord v i + (if off > 0 then 1 else - 1)"
  by (simp add: neighbour_def coord_set_coord)

lemma coord_neighbour_other: "i < 3 \<Longrightarrow> k < 3 \<Longrightarrow> k \<noteq> i \<Longrightarrow> coord (neighbour i off v) k = coord v k"
  by (auto simp add: neighbour_def coord_set_coord)

lemma calcPackedPosAndHash_in_grid:
  assumes "\<forall>k < 3. 0 \<le> coord v k \<and> coord v k < 2 ^ 20"
  shows "calcPackedPosAndHash hts v = Some (packPos v, mixHash (packPos v) hts)"
proof -
  obtain x y z where v: "v = (x, y, z)" by (cases v)
  have "0 \<le> coord v 0 \<and> coord v 0 < 2 ^ 20" "0 \<le> coord v 1 \<and> coord v 1 < 2 ^ 20"
    "0 \<le> coord v 2 \<and> coord v 2 < 2 ^ 20"
    using assms by simp_all
  then have "packPos (x, y, z) \<noteq> invalidPackedPos"
    by (intro packPos_valid) (simp_all add: v)
  then show ?thesis by (simp add: calcPackedPosAndHash_def v Let_def)
qed

lemma neighbour_step_eq:
  "neighbour_step g hts nV i off n (D, V, I)
   = (if coord (neighbour i off (V ! n)) i \<ge> 0 \<and> coord (neighbour i off (V ! n)) i < nV i
      then (case calcPackedPosAndHash hts (neighbour i off (V ! n)) of
              None \<Rightarrow> None
            | Some (newPackedPos, newHash) \<Rightarrow>
                Some (D @ [g newPackedPos newHash], V @ [neighbour i off (V ! n)],
                      (I @ [binary32 (I ! n * \<bar>off\<bar>)])
                        [n := binary32 (I ! n * binary32 (1 - \<bar>off\<bar>))]))
      else Some (D, V, I))"
  unfolding neighbour_def neighbour_step_def Let_def by simp

lemma neighbour_in_grid:
  assumes "\<forall>k < 3. 0 \<le> coord v k \<and> coord v k < nV k" "i < 3"
    "0 \<le> coord v i + (if off > 0 then 1 else - 1)" "coord v i + (if off > 0 then 1 else - 1) < nV i"
  shows "\<forall>k < 3. 0 \<le> coord (neighbour i off v) k \<and> coord (neighbour i off v) k < nV k"
proof (intro allI impI)
  fix k :: nat assume k: "k < 3"
  show "0 \<le> coord (neighbour i off v) k \<and> coord (neighbour i off v) k < nV k"
  proof (cases "k = i")
    case True
    then show ?thesis using assms(2,3,4) by (simp add: coord_neighbour_same)
  next
    case False
    then show ?thesis using assms(1,2) k by (simp add: coord_neighbour_other)
  qed
qed

lemma neighbour_step_split:
  assumes n: "n < length V" "n < length I" and i: "i < 3" and nV: "\<forall>k < 3. nV k \<le> 2 ^ 20"
    and v: "\<forall>k < 3. 0 \<le> coord (V ! n) k \<and> coord (V ! n) k < nV k"
    and inr: "0 \<le> coord (V ! n) i + (if off > 0 then 1 else - 1)"
      "coord (V ! n) i + (if off > 0 then 1 else - 1) < nV i"
  shows "neighbour_step g hts nV i off n (D, V, I)
         = Some (D @ [g (packPos (neighbour i off (V ! n)))
                        (mixHash (packPos (neighbour i off (V ! n))) hts)],
                 V @ [neighbour i off (V ! n)],
                 (I @ [binary32 (I ! n * \<bar>off\<bar>)])[n := binary32 (I ! n * binary32 (1 - \<bar>off\<bar>))])"
proof -
  have g: "\<forall>k < 3. 0 \<le> coord (neighbour i off (V ! n)) k \<and> coord (neighbour i off (V ! n)) k < nV k"
    using v i inr by (rule neighbour_in_grid)
  then have "\<forall>k < 3. 0 \<le> coord (neighbour i off (V ! n)) k
                     \<and> coord (neighbour i off (V ! n)) k < 2 ^ 20"
    using nV by force
  then have c: "calcPackedPosAndHash hts (neighbour i off (V ! n))
        = Some (packPos (neighbour i off (V ! n)), mixHash (packPos (neighbour i off (V ! n))) hts)"
    by (rule calcPackedPosAndHash_in_grid)
  have "coord (neighbour i off (V ! n)) i \<ge> 0 \<and> coord (neighbour i off (V ! n)) i < nV i"
    using g i by simp
  then show ?thesis by (simp add: neighbour_step_eq c)
qed

lemma neighbour_step_skip:
  assumes i: "i < 3"
    and out: "\<not> (0 \<le> coord (V ! n) i + (if off > 0 then 1 else - 1)
               \<and> coord (V ! n) i + (if off > 0 then 1 else - 1) < nV i)"
  shows "neighbour_step g hts nV i off n (D, V, I) = Some (D, V, I)"
  using out by (simp only: neighbour_step_eq coord_neighbour_same [OF i] if_False)

lemma neighbour_loop_append:
  "neighbour_loop g hts nV i off (xs @ ys) st
   = (case neighbour_loop g hts nV i off xs st of
        None \<Rightarrow> None
      | Some st' \<Rightarrow> neighbour_loop g hts nV i off ys st')"
  by (induction xs arbitrary: st) (simp_all split: option.splits)

lemma neighbour_loop_skip:
  assumes i: "i < 3" and same: "\<forall>v \<in> set V. coord v i = c0"
    and out: "\<not> (0 \<le> c0 + (if off > 0 then 1 else - 1) \<and> c0 + (if off > 0 then 1 else - 1) < nV i)"
    and ns: "\<forall>n \<in> set ns. n < length V"
  shows "neighbour_loop g hts nV i off ns (D, V, I) = Some (D, V, I)"
  using ns
proof (induction ns)
  case Nil
  then show ?case by simp
next
  case (Cons n ns)
  then have "coord (V ! n) i = c0" using same by simp
  then have "neighbour_step g hts nV i off n (D, V, I) = Some (D, V, I)"
    using out by (intro neighbour_step_skip [OF i]) simp
  then show ?case using Cons by simp
qed

lemma split_update:
  assumes "k < length I"
  shows "((map f (take k I) @ drop k I @ map h (take k I)) @ [h (I ! k)])[k := f (I ! k)]
         = map f (take (Suc k) I) @ drop (Suc k) I @ map h (take (Suc k) I)"
proof -
  have d: "drop k I = I ! k # drop (Suc k) I" using assms by (simp add: Cons_nth_drop_Suc)
  have len: "length (map f (take k I)) = k" using assms by simp
  have "((map f (take k I) @ drop k I @ map h (take k I)) @ [h (I ! k)])[k := f (I ! k)]
        = (map f (take k I) @ I ! k # (drop (Suc k) I @ map h (take k I) @ [h (I ! k)]))
            [length (map f (take k I)) := f (I ! k)]"
    by (simp only: d len) simp
  also have "\<dots> = map f (take k I) @ f (I ! k) # (drop (Suc k) I @ map h (take k I) @ [h (I ! k)])"
    by (rule list_update_length)
  also have "\<dots> = map f (take (Suc k) I) @ drop (Suc k) I @ map h (take (Suc k) I)"
    using assms by (simp add: take_Suc_conv_app_nth)
  finally show ?thesis .
qed

lemma neighbour_loop_split:
  assumes ok: "blend_ok nV (D, V, I)" and i: "i < 3" and nV: "\<forall>k < 3. nV k \<le> 2 ^ 20"
    and same: "\<forall>v \<in> set V. coord v i = c0"
    and inr: "0 \<le> c0 + (if off > 0 then 1 else - 1)" "c0 + (if off > 0 then 1 else - 1) < nV i"
    and k: "k \<le> length V"
  shows "neighbour_loop g hts nV i off [0..<k] (D, V, I)
         = Some (D @ map (\<lambda>v. g (packPos (neighbour i off v)) (mixHash (packPos (neighbour i off v)) hts))
                       (take k V),
                 V @ map (neighbour i off) (take k V),
                 map (\<lambda>w. binary32 (w * binary32 (1 - \<bar>off\<bar>))) (take k I) @ drop k I
                   @ map (\<lambda>w. binary32 (w * \<bar>off\<bar>)) (take k I))"
  using k
proof (induction k)
  case 0
  then show ?case by simp
next
  case (Suc k)
  let ?G = "\<lambda>v. g (packPos (neighbour i off v)) (mixHash (packPos (neighbour i off v)) hts)"
  let ?f = "\<lambda>w. binary32 (w * binary32 (1 - \<bar>off\<bar>))"
  let ?h = "\<lambda>w. binary32 (w * \<bar>off\<bar>)"
  let ?Vk = "V @ map (neighbour i off) (take k V)"
  let ?Ik = "map ?f (take k I) @ drop k I @ map ?h (take k I)"
  let ?Dk = "D @ map ?G (take k V)"
  from Suc.prems have kV: "k < length V" by simp
  have lenI: "length I = length V" using ok by (simp add: blend_ok_def)
  then have kI: "k < length I" using kV by simp
  have IH: "neighbour_loop g hts nV i off [0..<k] (D, V, I) = Some (?Dk, ?Vk, ?Ik)"
    using Suc.IH kV by simp
  have Vk: "?Vk ! k = V ! k" using kV by (simp add: nth_append)
  have Ik: "?Ik ! k = I ! k" using kI by (simp add: nth_append)
  have grid: "\<forall>j < 3. 0 \<le> coord (V ! k) j \<and> coord (V ! k) j < nV j"
    using ok kV by (simp add: blend_ok_def)
  have c0: "coord (V ! k) i = c0" using same kV by simp
  have step0: "neighbour_step g hts nV i off k (?Dk, ?Vk, ?Ik)
        = Some (?Dk @ [?G (?Vk ! k)], ?Vk @ [neighbour i off (?Vk ! k)],
                (?Ik @ [?h (?Ik ! k)])[k := ?f (?Ik ! k)])"
  proof (rule neighbour_step_split)
    show "k < length ?Vk" using kV by (cases V) auto
    show "k < length ?Ik" using kI by (cases I) auto
    show "i < 3" by (rule i)
    show "\<forall>k < 3. nV k \<le> 2 ^ 20" by (rule nV)
    show "\<forall>j < 3. 0 \<le> coord (?Vk ! k) j \<and> coord (?Vk ! k) j < nV j"
      using grid by (simp only: Vk)
    show "0 \<le> coord (?Vk ! k) i + (if off > 0 then 1 else - 1)"
      using inr(1) by (simp only: Vk c0)
    show "coord (?Vk ! k) i + (if off > 0 then 1 else - 1) < nV i"
      using inr(2) by (simp only: Vk c0)
  qed
  have step: "neighbour_step g hts nV i off k (?Dk, ?Vk, ?Ik)
        = Some (?Dk @ [?G (V ! k)], ?Vk @ [neighbour i off (V ! k)],
                (?Ik @ [?h (I ! k)])[k := ?f (I ! k)])"
    using step0 by (simp only: Vk Ik)
  have "neighbour_loop g hts nV i off [0..<Suc k] (D, V, I)
        = neighbour_loop g hts nV i off [k] (?Dk, ?Vk, ?Ik)"
    by (simp add: neighbour_loop_append IH)
  also have "\<dots> = Some (?Dk @ [?G (V ! k)], ?Vk @ [neighbour i off (V ! k)],
                (?Ik @ [?h (I ! k)])[k := ?f (I ! k)])"
    by (simp add: step)
  also have "?Dk @ [?G (V ! k)] = D @ map ?G (take (Suc k) V)"
    using kV by (simp add: take_Suc_conv_app_nth)
  also have "?Vk @ [neighbour i off (V ! k)] = V @ map (neighbour i off) (take (Suc k) V)"
    using kV by (simp add: take_Suc_conv_app_nth)
  also have "(?Ik @ [?h (I ! k)])[k := ?f (I ! k)]
             = map ?f (take (Suc k) I) @ drop (Suc k) I @ map ?h (take (Suc k) I)"
    using kI by (rule split_update)
  finally show ?case .
qed

lemma axis_loop_step:
  assumes ok: "blend_ok nV (D, V, I)" and i: "i < 3" and nV: "\<forall>k < 3. nV k \<le> 2 ^ 20"
    and same: "\<forall>v \<in> set V. coord v i = coord voxelId i"
  shows "\<exists>D' V'. axis_loop g hts nV offset (i # is) (D, V, I)
                   = axis_loop g hts nV offset is (D', V', axis_weights nV offset voxelId i I)
           \<and> blend_ok nV (D', V', axis_weights nV offset voxelId i I)
           \<and> (\<forall>j < 3. j \<noteq> i \<longrightarrow> (\<forall>v \<in> set V. coord v j = coord voxelId j)
                  \<longrightarrow> (\<forall>v \<in> set V'. coord v j = coord voxelId j))"
proof -
  define off where "off = offsetInVoxel offset nV i"
  define c where "c = coord voxelId i + (if off > 0 then 1 else - 1)"
  have split: "axis_split nV offset voxelId i \<longleftrightarrow> off \<noteq> 0 \<and> 0 \<le> c \<and> c < nV i"
    by (simp add: axis_split_def Let_def off_def c_def)
  have lenI: "length I = length V" using ok by (simp add: blend_ok_def)
  show ?thesis
  proof (cases "off = 0")
    case True
    then have "axis_loop g hts nV offset (i # is) (D, V, I) = axis_loop g hts nV offset is (D, V, I)"
      by (simp add: off_def)
    moreover have "axis_weights nV offset voxelId i I = I"
      using True split by (simp add: axis_weights_def)
    ultimately show ?thesis using ok by auto
  next
    case False
    show ?thesis
    proof (cases "0 \<le> c \<and> c < nV i")
      case out: False
      have "neighbour_loop g hts nV i off [0..<length V] (D, V, I) = Some (D, V, I)"
        using out by (intro neighbour_loop_skip [OF i same]) (simp_all add: c_def)
      then have "axis_loop g hts nV offset (i # is) (D, V, I)
                 = axis_loop g hts nV offset is (D, V, I)"
        using False by (simp add: off_def Let_def)
      moreover have "axis_weights nV offset voxelId i I = I"
        using out split by (auto simp add: axis_weights_def)
      ultimately show ?thesis using ok by auto
    next
      case inr: True
      let ?G = "\<lambda>v. g (packPos (neighbour i off v)) (mixHash (packPos (neighbour i off v)) hts)"
      let ?D = "D @ map ?G V" and ?V = "V @ map (neighbour i off) V"
      have loop: "neighbour_loop g hts nV i off [0..<length V] (D, V, I)
            = Some (?D, ?V, split_weights \<bar>off\<bar> I)"
        using neighbour_loop_split [OF ok i nV same, of off "length V" g hts] inr lenI
        by (simp add: c_def split_weights_def)
      have w: "axis_weights nV offset voxelId i I = split_weights \<bar>off\<bar> I"
        using False inr split by (simp add: axis_weights_def off_def)
      have a: "axis_loop g hts nV offset (i # is) (D, V, I)
               = axis_loop g hts nV offset is (?D, ?V, axis_weights nV offset voxelId i I)"
        using False loop by (simp add: off_def [symmetric] Let_def w)
      have grid: "\<forall>v \<in> set V. \<forall>k < 3. 0 \<le> coord v k \<and> coord v k < nV k"
        using ok by (simp add: blend_ok_def)
      have ngrid: "\<forall>v \<in> set V. \<forall>k < 3. 0 \<le> coord (neighbour i off v) k
                                      \<and> coord (neighbour i off v) k < nV k"
      proof
        fix v assume v: "v \<in> set V"
        then have "coord v i = coord voxelId i" using same by simp
        then show "\<forall>k < 3. 0 \<le> coord (neighbour i off v) k \<and> coord (neighbour i off v) k < nV k"
          using grid v inr by (intro neighbour_in_grid [OF _ i]) (simp_all add: c_def)
      qed
      have ok': "blend_ok nV (?D, ?V, axis_weights nV offset voxelId i I)"
        using ok grid ngrid lenI by (auto simp add: blend_ok_def w split_weights_def)
      have keep: "\<forall>j < 3. j \<noteq> i \<longrightarrow> (\<forall>v \<in> set V. coord v j = coord voxelId j)
                  \<longrightarrow> (\<forall>v \<in> set ?V. coord v j = coord voxelId j)"
        using i by (auto simp add: coord_neighbour_other)
      from a ok' keep show ?thesis by blast
    qed
  qed
qed

lemma length_axis_weights:
  "length ws \<le> length (axis_weights nV offset voxelId i ws)
   \<and> length (axis_weights nV offset voxelId i ws) \<le> 2 * length ws"
  by (simp add: axis_weights_def split_weights_def)

lemma upt_3: "[0..<3] = [0, 1, 2]"
  by (simp add: upt_rec)

lemma blend_lists_closed:
  assumes nV: "\<forall>k < 3. nV k \<le> 2 ^ 20"
    and vid: "\<forall>k < 3. 0 \<le> coord voxelId k \<and> coord voxelId k < nV k"
  shows "\<exists>D V. blend_lists g hts nV offset packedPos hash voxelId
                 = Some (D, V, blend_weights nV offset voxelId)
           \<and> length D = length (blend_weights nV offset voxelId)"
proof -
  have ok0: "blend_ok nV ([g packedPos hash], [voxelId], [1])"
    using vid by (simp add: blend_ok_def)
  have s0: "\<forall>v \<in> set [voxelId]. coord v j = coord voxelId j" for j by simp
  let ?w0 = "axis_weights nV offset voxelId 0 [1]"
  let ?w1 = "axis_weights nV offset voxelId 1 ?w0"
  let ?w2 = "axis_weights nV offset voxelId 2 ?w1"
  from axis_loop_step [OF ok0 _ nV s0, of 0 g hts offset "[1, 2]"]
  obtain D1 V1 where
    a1: "axis_loop g hts nV offset [0, 1, 2] ([g packedPos hash], [voxelId], [1])
         = axis_loop g hts nV offset [1, 2] (D1, V1, ?w0)"
    and ok1: "blend_ok nV (D1, V1, ?w0)"
    and k1: "\<forall>j < 3. j \<noteq> 0 \<longrightarrow> (\<forall>v \<in> set V1. coord v j = coord voxelId j)"
    by auto
  have s1: "\<forall>v \<in> set V1. coord v 1 = coord voxelId 1" using k1 by simp
  from axis_loop_step [OF ok1 _ nV s1, of g hts offset "[2]"]
  obtain D2 V2 where
    a2: "axis_loop g hts nV offset [1, 2] (D1, V1, ?w0)
         = axis_loop g hts nV offset [2] (D2, V2, ?w1)"
    and ok2: "blend_ok nV (D2, V2, ?w1)"
    and k2: "\<forall>j < 3. j \<noteq> 1 \<longrightarrow> (\<forall>v \<in> set V1. coord v j = coord voxelId j)
                  \<longrightarrow> (\<forall>v \<in> set V2. coord v j = coord voxelId j)"
    by auto
  have s2: "\<forall>v \<in> set V2. coord v 2 = coord voxelId 2" using k1 k2 by simp
  from axis_loop_step [OF ok2 _ nV s2, of g hts offset "[]"]
  obtain D3 V3 where
    a3: "axis_loop g hts nV offset [2] (D2, V2, ?w1)
         = axis_loop g hts nV offset [] (D3, V3, ?w2)"
    and ok3: "blend_ok nV (D3, V3, ?w2)"
    by auto
  have "blend_lists g hts nV offset packedPos hash voxelId = Some (D3, V3, ?w2)"
    by (simp only: blend_lists_def upt_3 a1 a2 a3 axis_loop.simps(1))
  moreover have "length D3 = length ?w2" using ok3 by (simp add: blend_ok_def)
  ultimately show ?thesis by (auto simp add: blend_weights_def)
qed

lemma fmod_one_bound: "\<bar>fmod x 1\<bar> < 1"
proof (cases "x \<ge> 0")
  case True
  then have "fmod x 1 = x - real_of_int \<lfloor>x\<rfloor>" by (simp add: fmod_def)
  moreover have "real_of_int \<lfloor>x\<rfloor> \<le> x" "x < real_of_int \<lfloor>x\<rfloor> + 1" by linarith+
  ultimately show ?thesis by linarith
next
  case False
  then have "fmod x 1 = x - real_of_int \<lceil>x\<rceil>" by (simp add: fmod_def)
  moreover have "x \<le> real_of_int \<lceil>x\<rceil>" "real_of_int \<lceil>x\<rceil> < x + 1" by linarith+
  ultimately show ?thesis by linarith
qed

lemma offsetInVoxel_bound: "\<bar>offsetInVoxel offset nV i\<bar> \<le> 2"
proof -
  define t where "t = fmod (binary32 (offset i / binary32 (1 / binary32 (real_of_int (nV i))))) 1"
  have t: "\<bar>t\<bar> < 1" unfolding t_def by (rule fmod_one_bound)
  then have y: "\<bar>t - 1 / 2\<bar> \<le> 3 / 2" by linarith
  have "\<bar>binary32 (t - 1 / 2) - (t - 1 / 2)\<bar> \<le> \<bar>t - 1 / 2\<bar> / 2 ^ 24 + 1 / 2 ^ 150"
    by (rule binary32_err)
  also have "\<dots> \<le> (3 / 2) / 2 ^ 24 + 1 / 2 ^ 150"
    using y by (simp add: divide_right_mono)
  finally have "\<bar>binary32 (t - 1 / 2) - (t - 1 / 2)\<bar> \<le> 1 / 2" by simp
  then have "\<bar>binary32 (t - 1 / 2)\<bar> \<le> 2" using y by linarith
  then show ?thesis by (simp add: offsetInVoxel_def t_def)
qed

lemma split_pair_bounds:
  assumes a: "0 \<le> a" "a \<le> 2"
  shows "\<bar>binary32 (w * binary32 (1 - a)) + binary32 (w * a) - w\<bar>
           \<le> (5 / 2 ^ 24 + 1 / 2 ^ 150) * \<bar>w\<bar> + 2 / 2 ^ 150"
    and "\<bar>binary32 (w * binary32 (1 - a))\<bar> + \<bar>binary32 (w * a)\<bar> \<le> 5 * \<bar>w\<bar> + 2 / 2 ^ 150"
proof -
  define b where "b = binary32 (1 - a)"
  define d :: real where "d = 1 / 2 ^ 24"
  define h :: real where "h = 1 / 2 ^ 150"
  have dh: "0 \<le> d" "0 \<le> h" "d \<le> 1 / 16" "h \<le> 1 / 16" by (simp_all add: d_def h_def)
  have w0: "0 \<le> \<bar>w\<bar>" by simp
  have one_a: "\<bar>1 - a\<bar> \<le> 1" using a by linarith
  have "\<bar>b - (1 - a)\<bar> \<le> \<bar>1 - a\<bar> * d + h"
    unfolding b_def d_def h_def using binary32_err [of "1 - a"] by simp
  also have "\<dots> \<le> 1 * d + h" using one_a dh(1) by (intro add_right_mono mult_right_mono)
  finally have berr: "\<bar>b - (1 - a)\<bar> \<le> d + h" by simp
  then have babs: "\<bar>b\<bar> \<le> 1 + d + h" using one_a by linarith
  then have b2: "\<bar>b\<bar> \<le> 2" using dh by linarith
  have "\<bar>binary32 (w * b) - w * b\<bar> \<le> \<bar>w * b\<bar> * d + h"
    unfolding d_def h_def using binary32_err [of "w * b"] by simp
  also have "\<bar>w * b\<bar> * d = \<bar>w\<bar> * \<bar>b\<bar> * d" by (simp add: abs_mult)
  also have "\<bar>w\<bar> * \<bar>b\<bar> * d + h \<le> \<bar>w\<bar> * 2 * d + h"
    using b2 dh(1) w0 by (intro add_right_mono mult_right_mono mult_left_mono)
  finally have e1: "\<bar>binary32 (w * b) - w * b\<bar> \<le> 2 * d * \<bar>w\<bar> + h" by (simp add: mult_ac)
  have "\<bar>binary32 (w * a) - w * a\<bar> \<le> \<bar>w * a\<bar> * d + h"
    unfolding d_def h_def using binary32_err [of "w * a"] by simp
  also have "\<bar>w * a\<bar> * d = \<bar>w\<bar> * a * d" using a(1) by (simp add: abs_mult)
  also have "\<bar>w\<bar> * a * d + h \<le> \<bar>w\<bar> * 2 * d + h"
    using a(2) dh(1) w0 by (intro add_right_mono mult_right_mono mult_left_mono)
  finally have e2: "\<bar>binary32 (w * a) - w * a\<bar> \<le> 2 * d * \<bar>w\<bar> + h" by (simp add: mult_ac)
  have "\<bar>w * (b - (1 - a))\<bar> = \<bar>w\<bar> * \<bar>b - (1 - a)\<bar>" by (simp add: abs_mult)
  also have "\<dots> \<le> \<bar>w\<bar> * (d + h)" using berr w0 by (intro mult_left_mono)
  finally have e3: "\<bar>w * (b - (1 - a))\<bar> \<le> (d + h) * \<bar>w\<bar>" by (simp add: mult_ac)
  have id: "binary32 (w * b) + binary32 (w * a) - w
        = (binary32 (w * b) - w * b) + (binary32 (w * a) - w * a) + w * (b - (1 - a))"
    by (simp add: algebra_simps)
  have "\<bar>binary32 (w * b) + binary32 (w * a) - w\<bar> \<le> (5 * d + h) * \<bar>w\<bar> + 2 * h"
    unfolding id using e1 e2 e3 by (simp add: algebra_simps) linarith
  then show "\<bar>binary32 (w * binary32 (1 - a)) + binary32 (w * a) - w\<bar>
           \<le> (5 / 2 ^ 24 + 1 / 2 ^ 150) * \<bar>w\<bar> + 2 / 2 ^ 150"
    by (simp add: b_def d_def h_def)
  have "\<bar>w * b\<bar> = \<bar>w\<bar> * \<bar>b\<bar>" by (simp add: abs_mult)
  also have "\<dots> \<le> \<bar>w\<bar> * 2" using b2 w0 by (intro mult_left_mono)
  finally have m1: "\<bar>w * b\<bar> \<le> 2 * \<bar>w\<bar>" by simp
  have "\<bar>w * a\<bar> = \<bar>w\<bar> * a" using a(1) by (simp add: abs_mult)
  also have "\<dots> \<le> \<bar>w\<bar> * 2" using a(2) w0 by (intro mult_left_mono)
  finally have m2: "\<bar>w * a\<bar> \<le> 2 * \<bar>w\<bar>" by simp
  have dsmall: "2 * d * \<bar>w\<bar> \<le> (1 / 2) * \<bar>w\<bar>"
    using dh(3) w0 by (intro mult_right_mono) simp_all
  have "\<bar>binary32 (w * b)\<bar> + \<bar>binary32 (w * a)\<bar> \<le> 5 * \<bar>w\<bar> + 2 * h"
    using e1 e2 m1 m2 dsmall by linarith
  then show "\<bar>binary32 (w * binary32 (1 - a))\<bar> + \<bar>binary32 (w * a)\<bar> \<le> 5 * \<bar>w\<bar> + 2 / 2 ^ 150"
    by (simp add: b_def h_def)
qed

lemma split_weights_bounds:
  assumes a: "0 \<le> a" "a \<le> 2"
  shows "\<bar>sum_list (split_weights a ws) - sum_list ws\<bar>
           \<le> (5 / 2 ^ 24 + 1 / 2 ^ 150) * sum_list (map abs ws) + (2 / 2 ^ 150) * real (length ws)
       \<and> sum_list (map abs (split_weights a ws))
           \<le> 5 * sum_list (map abs ws) + (2 / 2 ^ 150) * real (length ws)"
proof (induction ws)
  case Nil
  then show ?case by (simp add: split_weights_def)
next
  case (Cons w ws)
  let ?f = "\<lambda>w. binary32 (w * binary32 (1 - a))" and ?h = "\<lambda>w. binary32 (w * a)"
  have s: "sum_list (split_weights a (w # ws)) = (?f w + ?h w) + sum_list (split_weights a ws)"
    by (simp add: split_weights_def)
  have t: "sum_list (map abs (split_weights a (w # ws)))
           = (\<bar>?f w\<bar> + \<bar>?h w\<bar>) + sum_list (map abs (split_weights a ws))"
    by (simp add: split_weights_def)
  note p = split_pair_bounds [OF a, of w]
  have d: "(5 / 2 ^ 24 + 1 / 2 ^ 150) * sum_list (map abs (w # ws))
           = (5 / 2 ^ 24 + 1 / 2 ^ 150) * \<bar>w\<bar> + (5 / 2 ^ 24 + 1 / 2 ^ 150) * sum_list (map abs ws)"
    by (simp add: distrib_left)
  have l: "(2 / 2 ^ 150) * real (length (w # ws)) = 2 / 2 ^ 150 + (2 / 2 ^ 150) * real (length ws)"
    by (simp add: distrib_left)
  have t5: "5 * sum_list (map abs (w # ws)) = 5 * \<bar>w\<bar> + 5 * sum_list (map abs ws)" by simp
  show ?case
  proof
    show "\<bar>sum_list (split_weights a (w # ws)) - sum_list (w # ws)\<bar>
           \<le> (5 / 2 ^ 24 + 1 / 2 ^ 150) * sum_list (map abs (w # ws))
              + (2 / 2 ^ 150) * real (length (w # ws))"
      unfolding s d l using p(1) Cons.IH [THEN conjunct1] by simp
    show "sum_list (map abs (split_weights a (w # ws)))
           \<le> 5 * sum_list (map abs (w # ws)) + (2 / 2 ^ 150) * real (length (w # ws))"
      unfolding t t5 l using p(2) Cons.IH [THEN conjunct2] by linarith
  qed
qed

lemma sum_abs_nonneg: "0 \<le> sum_list (map abs (ws :: real list))"
  by (induction ws) simp_all

lemma axis_weights_bounds:
  "\<bar>sum_list (axis_weights nV offset voxelId i ws) - sum_list ws\<bar>
     \<le> (5 / 2 ^ 24 + 1 / 2 ^ 150) * sum_list (map abs ws) + (2 / 2 ^ 150) * real (length ws)
   \<and> sum_list (map abs (axis_weights nV offset voxelId i ws))
     \<le> 5 * sum_list (map abs ws) + (2 / 2 ^ 150) * real (length ws)"
proof (cases "axis_split nV offset voxelId i")
  case True
  then show ?thesis
    using split_weights_bounds [of "\<bar>offsetInVoxel offset nV i\<bar>" ws] offsetInVoxel_bound [of offset nV i]
    by (simp add: axis_weights_def)
next
  case False
  have "0 \<le> (5 / 2 ^ 24 + 1 / 2 ^ 150) * sum_list (map abs ws) + (2 / 2 ^ 150) * real (length ws)"
    using sum_abs_nonneg [of ws] by (intro add_nonneg_nonneg mult_nonneg_nonneg) simp_all
  moreover have "sum_list (map abs ws) \<le> 5 * sum_list (map abs ws) + (2 / 2 ^ 150) * real (length ws)"
    using sum_abs_nonneg [of ws] by (simp add: add_increasing2)
  ultimately show ?thesis using False by (simp add: axis_weights_def)
qed

lemma length_blend_weights:
  "length (blend_weights nV offset voxelId)
   = (if axis_split nV offset voxelId 0 then 2 else 1) * (if axis_split nV offset voxelId 1 then 2 else 1)
       * (if axis_split nV offset voxelId 2 then 2 else 1)"
  by (simp add: blend_weights_def axis_weights_def split_weights_def)

lemma blend_weights_sum:
  "\<bar>sum_list (blend_weights nV offset voxelId) - 1\<bar> \<le> 1 / 2 ^ 16"
proof -
  define c :: real where "c = 5 / 2 ^ 24 + 1 / 2 ^ 150"
  define h :: real where "h = 2 / 2 ^ 150"
  define w1 where "w1 = axis_weights nV offset voxelId 0 [1]"
  define w2 where "w2 = axis_weights nV offset voxelId 1 w1"
  define w3 where "w3 = axis_weights nV offset voxelId 2 w2"
  have c0: "0 \<le> c" and h0: "0 \<le> h" by (simp_all add: c_def h_def)
  note b1 = axis_weights_bounds [of nV offset voxelId 0 "[1]", folded w1_def c_def h_def]
  note b2 = axis_weights_bounds [of nV offset voxelId 1 w1, folded w2_def c_def h_def]
  note b3 = axis_weights_bounds [of nV offset voxelId 2 w2, folded w3_def c_def h_def]
  have l1: "real (length w1) \<le> 2"
    using length_axis_weights [of "[1]" nV offset voxelId 0] by (simp add: w1_def)
  have l2: "real (length w2) \<le> 4"
    using length_axis_weights [of w1 nV offset voxelId 1] l1 by (simp add: w2_def)
  have s1: "\<bar>sum_list w1 - 1\<bar> \<le> c + h" using b1 by simp
  have t1: "sum_list (map abs w1) \<le> 6" using b1 by (simp add: h_def)
  have "c * sum_list (map abs w1) \<le> c * 6" using t1 c0 by (rule mult_left_mono)
  moreover have "h * real (length w1) \<le> h * 2" using l1 h0 by (rule mult_left_mono)
  ultimately have s2: "\<bar>sum_list w2 - sum_list w1\<bar> \<le> c * 6 + h * 2"
    and t2: "sum_list (map abs w2) \<le> 5 * 6 + h * 2"
    using b2 t1 by linarith+
  have t2': "sum_list (map abs w2) \<le> 31" using t2 by (simp add: h_def)
  have "c * sum_list (map abs w2) \<le> c * 31" using t2' c0 by (rule mult_left_mono)
  moreover have "h * real (length w2) \<le> h * 4" using l2 h0 by (rule mult_left_mono)
  ultimately have s3: "\<bar>sum_list w3 - sum_list w2\<bar> \<le> c * 31 + h * 4"
    using b3 by linarith
  have "\<bar>sum_list w3 - 1\<bar> \<le> c * 38 + h * 7" using s1 s2 s3 by linarith
  also have "\<dots> \<le> 1 / 2 ^ 16" by (simp add: c_def h_def)
  finally show ?thesis by (simp add: blend_weights_def w3_def w2_def w1_def)
qed

lemma influence_closed:
  assumes nV: "\<forall>k < 3. nV k \<le> 2 ^ 20"
    and vid: "\<forall>k < 3. 0 \<le> coord voxelId k \<and> coord voxelId k < nV k"
  shows "\<exists>ds. getInterpolatedDistribution g hts nV offset packedPos hash voxelId
               = Some (Interpolated ((Distribution1D_ctor_f32 (blend_weights nV offset voxelId))
                          \<lparr> deleteAfterUsage := True \<rparr>) ds)
            \<and> length ds = length (blend_weights nV offset voxelId)"
proof -
  from blend_lists_closed [OF nV vid, of g hts offset packedPos hash]
  obtain D V where
    b: "blend_lists g hts nV offset packedPos hash voxelId = Some (D, V, blend_weights nV offset voxelId)"
    and l: "length D = length (blend_weights nV offset voxelId)"
    by blast
  have "0 < length (blend_weights nV offset voxelId)" by (simp add: length_blend_weights)
  then have "getInterpolatedDistribution g hts nV offset packedPos hash voxelId
             = Some (Interpolated ((Distribution1D_ctor_f32 (blend_weights nV offset voxelId))
                          \<lparr> deleteAfterUsage := True \<rparr>) D)"
    by (simp add: getInterpolatedDistribution_def b)
  with l show ?thesis by blast
qed

lemma func_ctor_f32: "func (Distribution1D_ctor_f32 f) = f"
  by (simp add: Distribution1D_ctor_f32_def Let_def)

lemma b32_half: "binary32 (1 / 2) = 1 / 2"
  using binary32_eval [of "- 1" "1 / 2"] by (simp add: rne_int_def Let_def)
lemma b32_quarter: "binary32 (1 / 4) = 1 / 4"
  using binary32_eval [of "- 2" "1 / 4"] by (simp add: rne_int_def Let_def)
lemma b32_3q: "binary32 (3 / 4) = 3 / 4"
  using binary32_eval [of "- 1" "3 / 4"] by (simp add: rne_int_def Let_def)
lemma b32_x0: "binary32 (4194305 / 8388608) = 4194305 / 8388608"
  using binary32_eval [of "- 1" "4194305 / 8388608"] by (simp add: rne_int_def Let_def)
lemma b32_o0: "binary32 (1 / 8388608) = 1 / 8388608"
  using binary32_eval [of "- 23" "1 / 8388608"] by (simp add: rne_int_def Let_def)
lemma b32_c0: "binary32 (8388607 / 8388608) = 8388607 / 8388608"
  using binary32_eval [of "- 1" "8388607 / 8388608"] by (simp add: rne_int_def Let_def)
lemma b32_p0: "binary32 (25165821 / 33554432) = 6291455 / 8388608"
  using binary32_eval [of "- 1" "25165821 / 33554432"] by (simp add: rne_int_def Let_def)
lemma b32_p2: "binary32 (8388607 / 33554432) = 8388607 / 33554432"
  using binary32_eval [of "- 3" "8388607 / 33554432"] by (simp add: rne_int_def Let_def)
lemma b32_p3: "binary32 (1 / 33554432) = 1 / 33554432"
  using binary32_eval [of "- 25" "1 / 33554432"] by (simp add: rne_int_def Let_def)

lemmas b32_blend = b32_0 b32_1 b32_2 b32_w0 b32_half b32_quarter b32_3q b32_x0 b32_o0 b32_c0
  b32_p0 b32_p2 b32_p3

lemma example_offsets:
  "offsetInVoxel example_offset example_grid 0 = 1 / 8388608"
  "offsetInVoxel example_offset example_grid 1 = 1 / 4"
  "offsetInVoxel example_offset example_grid (Suc 0) = 1 / 4"
  "offsetInVoxel example_offset example_grid 2 = 0"
  by (simp_all add: offsetInVoxel_def example_offset_def example_grid_def fmod_def b32_blend)

lemma example_weights:
  "blend_weights example_grid example_offset (0, 0, 0)
   = [6291455 / 8388608, 3 / 33554432, 8388607 / 33554432, 1 / 33554432]"
  by (simp add: blend_weights_def axis_weights_def axis_split_def split_weights_def
      example_offsets example_grid_def b32_blend)

text \<open>
  Claim C10, as amended. In \<open>getInterpolatedDistribution\<close>, for a grid with at most \<open>2^20\<close>
  voxels per axis, a voxel id inside it and an offset of magnitude at most \<open>2^100\<close> (so that
  no \<open>float\<close> operation overflows), the call returns an \<open>InterpolatedDistribution1D\<close> over
  the current voxel and up to seven neighbours. Along each axis in turn the weights stay as
  they are when \<open>frac\<close> is \<open>0\<close> or the neighbour is out of range; otherwise every weight \<open>w\<close>
  is replaced by \<open>(1-|frac|) w\<close> and \<open>|frac| w\<close> is appended for it, the difference and the
  products rounded to \<open>float\<close>. There are two to the number of split axes weights, and
  their sum is \<open>1\<close> up to that rounding: it differs from \<open>1\<close> by at most \<open>2^-16\<close>. It need not
  be exactly \<open>1\<close>: at \<open>p = (0.25 + 2^-24, 0.375, 0.25)\<close> in the unit cube with two voxels per
  axis the four weights sum to \<open>1 - 2^-25\<close>.
\<close>

theorem getInterpolatedDistribution_weights:
  assumes "\<forall>k < 3. nV k \<le> 2 ^ 20"
    and "\<forall>k < 3. 0 \<le> coord voxelId k \<and> coord voxelId k < nV k"
    and "\<forall>k < 3. \<bar>offset k\<bar> \<le> 2 ^ 100"
  shows "\<exists>d ds. getInterpolatedDistribution g hts nV offset packedPos hash voxelId
                  = Some (Interpolated d ds)
           \<and> func d = blend_weights nV offset voxelId
           \<and> length ds = length (func d)
           \<and> length (func d)
               = (if axis_split nV offset voxelId 0 then 2 else 1)
                   * (if axis_split nV offset voxelId 1 then 2 else 1)
                   * (if axis_split nV offset voxelId 2 then 2 else 1)
           \<and> \<bar>sum_list (func d) - 1\<bar> \<le> 1 / 2 ^ 16"
proof -
  from influence_closed [OF assms(1,2), of g hts offset packedPos hash]
  obtain ds where
    r: "getInterpolatedDistribution g hts nV offset packedPos hash voxelId
        = Some (Interpolated ((Distribution1D_ctor_f32 (blend_weights nV offset voxelId))
                          \<lparr> deleteAfterUsage := True \<rparr>) ds)"
    and l: "length ds = length (blend_weights nV offset voxelId)"
    by blast
  let ?d = "(Distribution1D_ctor_f32 (blend_weights nV offset voxelId))\<lparr> deleteAfterUsage := True \<rparr>"
  have f: "func ?d = blend_weights nV offset voxelId" by (simp add: func_ctor_f32)
  show ?thesis
    using r l length_blend_weights [of nV offset voxelId] blend_weights_sum [of nV offset voxelId]
    by (intro exI [of _ ?d] exI [of _ ds]) (simp only: f simp_thms)
qed

theorem getInterpolatedDistribution_weights_witness:
  "axis_split example_grid example_offset (0, 0, 0) 0
   \<and> axis_split example_grid example_offset (0, 0, 0) 1
   \<and> \<not> axis_split example_grid example_offset (0, 0, 0) 2
   \<and> length (influence_of (getInterpolatedDistribution example_probe 32 example_grid example_offset
                   (packPos (0, 0, 0)) (mixHash (packPos (0, 0, 0)) 32) (0, 0, 0))) = 4
   \<and> \<bar>sum_list (influence_of (getInterpolatedDistribution example_probe 32 example_grid
                   example_offset (packPos (0, 0, 0)) (mixHash (packPos (0, 0, 0)) 32) (0, 0, 0)))
        - 1\<bar> \<le> 1 / 2 ^ 16"
proof -
  have a: "\<forall>k < 3. example_grid k \<le> 2 ^ 20" by (simp add: example_grid_def)
  have b: "\<forall>k < 3. 0 \<le> coord (0, 0, 0) k \<and> coord (0, 0, 0) k < example_grid k"
    by (simp add: example_grid_def)
  have c: "\<forall>k < 3. \<bar>example_offset k\<bar> \<le> 2 ^ 100" by (simp add: example_offset_def)
  have s: "axis_split example_grid example_offset (0, 0, 0) 0"
    "axis_split example_grid example_offset (0, 0, 0) 1"
    "\<not> axis_split example_grid example_offset (0, 0, 0) 2"
    by (simp_all add: axis_split_def example_offsets example_grid_def)
  from getInterpolatedDistribution_weights [OF a b c, of example_probe 32 "packPos (0, 0, 0)"
      "mixHash (packPos (0, 0, 0)) 32"]
  obtain d ds where
    "getInterpolatedDistribution example_probe 32 example_grid example_offset
       (packPos (0, 0, 0)) (mixHash (packPos (0, 0, 0)) 32) (0, 0, 0) = Some (Interpolated d ds)"
    "length (func d)
       = (if axis_split example_grid example_offset (0, 0, 0) 0 then 2 else 1)
           * (if axis_split example_grid example_offset (0, 0, 0) 1 then 2 else 1)
           * (if axis_split example_grid example_offset (0, 0, 0) 2 then 2 else 1)"
    "\<bar>sum_list (func d) - 1\<bar> \<le> 1 / 2 ^ 16"
    by blast
  then show ?thesis using s by (simp add: influence_of_def)
qed

theorem getInterpolatedDistribution_weights_counterexample:
  "influence_of (getInterpolatedDistribution example_probe 32 example_grid example_offset
                   (packPos (0, 0, 0)) (mixHash (packPos (0, 0, 0)) 32) (0, 0, 0))
     = [6291455 / 8388608, 3 / 33554432, 8388607 / 33554432, 1 / 33554432]
   \<and> sum_list [6291455 / 8388608, 3 / 33554432, 8388607 / 33554432, 1 / 33554432 :: real]
       = 1 - 1 / 2 ^ 25
   \<and> sum_list [6291455 / 8388608, 3 / 33554432, 8388607 / 33554432, 1 / 33554432 :: real] \<noteq> 1"
proof -
  have a: "\<forall>k < 3. example_grid k \<le> 2 ^ 20" by (simp add: example_grid_def)
  have b: "\<forall>k < 3. 0 \<le> coord (0, 0, 0) k \<and> coord (0, 0, 0) k < example_grid k"
    by (simp add: example_grid_def)
  from influence_closed [OF a b, of example_probe 32 example_offset "packPos (0, 0, 0)"
      "mixHash (packPos (0, 0, 0)) 32"]
  have "influence_of (getInterpolatedDistribution example_probe 32 example_grid example_offset
                   (packPos (0, 0, 0)) (mixHash (packPos (0, 0, 0)) 32) (0, 0, 0))
        = blend_weights example_grid example_offset (0, 0, 0)"
    by (auto simp add: influence_of_def func_ctor_f32)
  then show ?thesis by (simp add: example_weights)
qed

end
